theory Spec2Isabelle
  imports
    Complex_Main
    "HOL-Library.Word"
    "HOL-Library.Multiset"
    "HOL-Library.List_Lexorder"
    "HOL-Library.Product_Lexorder"
begin

section \<open>Element types and standard algorithms\<close>

subsection \<open>Floating-point elements\<close>

text \<open>
  Modelled from the spec: the column element types are Int32, Int64, Float, Double and
  String, and floating-point arithmetic is IEEE 754. The integers and the strings are
  linearly ordered by \<^verbatim>\<open><\<close>, and \<^verbatim>\<open>==\<close> is identity on them. A floating-point element
  is a number or NaN; \<^verbatim>\<open><\<close> and \<^verbatim>\<open>==\<close> are false whenever an operand is NaN, also for
  NaN against itself. The infinities and the sign of zero are left out: they compare
  like numbers.
\<close>

datatype float = NaN | Number real

fun float_less :: "float \<Rightarrow> float \<Rightarrow> bool" where
  "float_less (Number x) (Number y) = (x < y)"
| "float_less _ _ = False"

fun float_eq :: "float \<Rightarrow> float \<Rightarrow> bool" where
  "float_eq (Number x) (Number y) = (x = y)"
| "float_eq _ _ = False"

subsection \<open>Algorithms of the standard library\<close>

text \<open>
  The templates of \<^verbatim>\<open><algorithm>\<close> that the sources call. Each takes the comparison of
  the element type as its first argument: \<^verbatim>\<open><\<close> (or the comparator passed by the caller)
  for \<^verbatim>\<open>std::sort\<close> and \<^verbatim>\<open>std::lower_bound\<close>, \<^verbatim>\<open>==\<close> for \<^verbatim>\<open>std::unique\<close>.

  \<^verbatim>\<open>std::sort\<close>, as an insertion sort. The standard leaves the order of elements that the
  comparator does not separate open; here they keep their order. When the comparison is
  not a strict weak ordering on the elements, as \<^verbatim>\<open><\<close> of a floating-point type is with NaN
  among them, the standard promises nothing; the insertion sort still returns a
  permutation of its input.
\<close>

fun insert_sorted :: "('a \<Rightarrow> 'a \<Rightarrow> bool) \<Rightarrow> 'a \<Rightarrow> 'a list \<Rightarrow> 'a list" where
  "insert_sorted lt x [] = [x]"
| "insert_sorted lt x (y # ys) =
     (if lt y x then y # insert_sorted lt x ys else x # y # ys)"

definition std_sort :: "('a \<Rightarrow> 'a \<Rightarrow> bool) \<Rightarrow> 'a list \<Rightarrow> 'a list" where
  "std_sort lt xs = foldr (insert_sorted lt) xs []"

text \<open>
  \<^verbatim>\<open>std::unique\<close> followed by the \<^verbatim>\<open>erase\<close> of the tail: of every run of consecutive
  elements that are \<^verbatim>\<open>==\<close> to the last element kept, only that element stays.
\<close>

fun std_unique :: "('a \<Rightarrow> 'a \<Rightarrow> bool) \<Rightarrow> 'a list \<Rightarrow> 'a list" where
  "std_unique eq [] = []"
| "std_unique eq [x] = [x]"
| "std_unique eq (x # y # xs) =
     (if eq x y then std_unique eq (x # xs) else x # std_unique eq (y # xs))"

text \<open>
  \<^verbatim>\<open>std::lower_bound\<close> as the standard library runs it: a bisection over the half-open
  range that starts at \<open>first\<close> and has \<open>len\<close> elements.
\<close>

function lower_bound_loop :: "('a \<Rightarrow> 'a \<Rightarrow> bool) \<Rightarrow> 'a list \<Rightarrow> 'a \<Rightarrow> nat \<Rightarrow> nat \<Rightarrow> nat" where
  "lower_bound_loop lt xs v first len =
     (if len = 0 then first
      else (let half = len div 2; middle = first + half in
            if lt (xs ! middle) v
            then lower_bound_loop lt xs v (middle + 1) (len - half - 1)
            else lower_bound_loop lt xs v first half))"
  by pat_completeness auto
termination
  by (relation "measure (\<lambda>(lt, xs, v, first, len). len)") auto

definition lower_bound :: "('a \<Rightarrow> 'a \<Rightarrow> bool) \<Rightarrow> 'a list \<Rightarrow> 'a \<Rightarrow> nat" where
  "lower_bound lt xs v = lower_bound_loop lt xs v 0 (length xs)"

text \<open>
  What the standard asks of the comparison handed to these algorithms, on the elements
  \<open>V\<close> they are run on: \<^verbatim>\<open><\<close> is a strict weak ordering (irreflexive, transitive, and
  with a transitive incomparability), and \<^verbatim>\<open>==\<close> holds of exactly the elements that \<^verbatim>\<open><\<close>
  does not separate. The integers and the strings meet it, and so does every set of
  floating-point numbers without NaN.
\<close>

definition strict_weak_order_on :: "'a set \<Rightarrow> ('a \<Rightarrow> 'a \<Rightarrow> bool) \<Rightarrow> ('a \<Rightarrow> 'a \<Rightarrow> bool) \<Rightarrow> bool" where
  "strict_weak_order_on V lt eq \<longleftrightarrow>
     (\<forall>x\<in>V. \<not> lt x x)
     \<and> (\<forall>x\<in>V. \<forall>y\<in>V. \<forall>z\<in>V. lt x y \<longrightarrow> lt y z \<longrightarrow> lt x z)
     \<and> (\<forall>x\<in>V. \<forall>y\<in>V. \<forall>z\<in>V. eq x y \<longrightarrow> eq y z \<longrightarrow> eq x z)
     \<and> (\<forall>x\<in>V. \<forall>y\<in>V. eq x y \<longleftrightarrow> \<not> lt x y \<and> \<not> lt y x)"

section \<open>Expression tree (base\_expression.cpp)\<close>

text \<open>
  \<^verbatim>\<open>ExpressionType\<close> as the switch statements of \<^verbatim>\<open>base_expression.cpp\<close> enumerate it.
  \<^verbatim>\<open>Literal\<close> and \<^verbatim>\<open>Not\<close> carry a prime because HOL already owns the names.
\<close>

datatype ExpressionType =
    Literal' | Column | Function | Select | Star | Placeholder
  | Subtraction | Addition | Multiplication | Division | Modulo | Power
  | Equals | NotEquals | LessThan | LessThanEquals | GreaterThan | GreaterThanEquals
  | Like | NotLike | And | Or | Between | Not' | Exists

text \<open>
  Modelled from the spec: the enum \<^verbatim>\<open>AggregateFunction\<close> is declared outside the files at
  hand; the spec lists Count, Sum, Min, Max and Avg. \<^verbatim>\<open>Min\<close>, \<^verbatim>\<open>Max\<close> and \<^verbatim>\<open>Sum\<close> are
  primed to keep HOL's constants visible.
\<close>

datatype AggregateFunction = Min' | Max' | Sum' | Avg | Count

text \<open>\<^verbatim>\<open>ValuePlaceholder\<close> wraps the 16-bit index of a prepared-statement parameter.\<close>

type_synonym ValuePlaceholder = "16 word"

text \<open>
  One node of \<^verbatim>\<open>BaseExpression\<close>. The fields are the private members in the order in
  which \<^verbatim>\<open>deep_copy\<close> assigns them; a \<^verbatim>\<open>std::optional\<close> is an \<open>option\<close>, a possibly
  null \<^verbatim>\<open>shared_ptr\<close> child is an \<open>option\<close>, and the argument vector is a list of
  (non-null) expressions. The element type \<open>'v\<close> stands for \<^verbatim>\<open>AllTypeVariant\<close>, which is
  declared outside the files at hand.
\<close>

datatype 'v expression = Expression
  (e_type: ExpressionType)
  (e_value: "'v option")
  (e_aggregate_function: "AggregateFunction option")
  (e_table_name: "string option")
  (e_alias: "string option")
  (e_value_placeholder: "ValuePlaceholder option")
  (e_aggregate_function_arguments: "'v expression list")
  (left_child: "'v expression option")
  (right_child: "'v expression option")

text \<open>
  \<^verbatim>\<open>deep_copy\<close>: a fresh node of the same type, the five scalar members assigned, the
  arguments copied one by one, the children copied when present. The hook
  \<^verbatim>\<open>_deep_copy_impl\<close> belongs to the derived classes and touches none of these members.
\<close>

primrec deep_copy :: "'v expression \<Rightarrow> 'v expression" where
  "deep_copy (Expression t v af tn al vp args l r) =
     Expression t v af tn al vp (map deep_copy args) (map_option deep_copy l) (map_option deep_copy r)"

text \<open>
  Equality of two \<^verbatim>\<open>std::optional\<close>s: both empty, or both engaged with equal contents.
  The comparison of the contents is a parameter.
\<close>

definition optional_eq :: "('a \<Rightarrow> 'a \<Rightarrow> bool) \<Rightarrow> 'a option \<Rightarrow> 'a option \<Rightarrow> bool" where
  "optional_eq eq a b =
     (case (a, b) of
        (Some x, Some y) \<Rightarrow> eq x y
      | (None, None) \<Rightarrow> True
      | _ \<Rightarrow> False)"

text \<open>
  \<^verbatim>\<open>operator==\<close>. The lambda \<^verbatim>\<open>compare_expression_ptrs\<close> is written out at its three call
  sites: two non-null pointers compare their pointees, otherwise the pointers themselves
  are compared, which here only succeeds for two null pointers. The checks run in the
  order of the source: left child, right child, argument count, arguments, then the
  scalar members. \<open>veq\<close> is \<^verbatim>\<open>operator==\<close> of \<^verbatim>\<open>AllTypeVariant\<close>.
\<close>

fun expr_eq :: "('v \<Rightarrow> 'v \<Rightarrow> bool) \<Rightarrow> 'v expression \<Rightarrow> 'v expression \<Rightarrow> bool" where
  "expr_eq veq (Expression t v af tn al vp args l r) (Expression t' v' af' tn' al' vp' args' l' r') =
     (if \<not> (case (l, l') of
               (Some x, Some y) \<Rightarrow> expr_eq veq x y
             | (None, None) \<Rightarrow> True
             | _ \<Rightarrow> False) then False
      else if \<not> (case (r, r') of
               (Some x, Some y) \<Rightarrow> expr_eq veq x y
             | (None, None) \<Rightarrow> True
             | _ \<Rightarrow> False) then False
      else if length args \<noteq> length args' then False
      else if \<not> list_all2 (expr_eq veq) args args' then False
      else t = t' \<and> optional_eq veq v v' \<and> af = af' \<and> tn = tn' \<and> al = al')"

text \<open>The factory functions of the source that the claims mention.\<close>

definition create_literal :: "'v \<Rightarrow> string option \<Rightarrow> 'v expression" where
  "create_literal val al = Expression Literal' (Some val) None None al None [] None None"

definition create_value_placeholder :: "ValuePlaceholder \<Rightarrow> 'v expression" where
  "create_value_placeholder p = Expression Placeholder None None None None (Some p) [] None None"

definition create_aggregate_function ::
  "AggregateFunction \<Rightarrow> 'v expression list \<Rightarrow> string option \<Rightarrow> 'v expression" where
  "create_aggregate_function f function_arguments al =
     Expression Function None (Some f) None al None function_arguments None None"

section \<open>Failures\<close>

text \<open>
  \<^verbatim>\<open>Assert\<close> and \<^verbatim>\<open>Fail\<close> abort in every build, \<^verbatim>\<open>DebugAssert\<close> only in debug builds.
  Each carries the message of the source.
\<close>

datatype error = AssertFailed string | DebugAssertFailed string | Failed string

section \<open>Dictionary encoder (dictionary\_encoder.hpp)\<close>

text \<open>
  A value column: the values and, when the column is nullable, the parallel vector of
  NULL flags (\<^verbatim>\<open>is_nullable()\<close> is the presence of that vector).
\<close>

record 'a ValueColumn =
  vc_values :: "'a list"
  null_values :: "bool list option"

definition is_nullable :: "'a ValueColumn \<Rightarrow> bool" where
  "is_nullable c = (null_values c \<noteq> None)"

text \<open>
  The loop that swaps NULL slots to the back. Both reverse iterators start at the last
  element of their vector and advance together: \<open>Suc i\<close> elements of the dictionary are
  still to be visited, \<open>dict_it\<close> stands at index \<open>i\<close>, and \<open>null_it\<close> is what the reverse
  iterator over the NULL flags still has before it, the flag it stands at first. On a
  NULL flag \<^verbatim>\<open>erase_from_here_it\<close> is decremented and the two slots are swapped. The
  source does not check that the flags last as long as the values.
\<close>

fun swap_nulls_to_back :: "bool list \<Rightarrow> nat \<Rightarrow> 'a list \<Rightarrow> nat \<Rightarrow> 'a list \<times> nat" where
  "swap_nulls_to_back null_it 0 dictionary erase_from_here = (dictionary, erase_from_here)"
| "swap_nulls_to_back null_it (Suc i) dictionary erase_from_here =
     (if hd null_it then
        swap_nulls_to_back (tl null_it) i
          (dictionary[i := dictionary ! (erase_from_here - 1), erase_from_here - 1 := dictionary ! i])
          (erase_from_here - 1)
      else swap_nulls_to_back (tl null_it) i dictionary erase_from_here)"

text \<open>
  \<^verbatim>\<open>ValueID\<close> is a 32-bit unsigned integer; the distance is cast into it.
  \<^verbatim>\<open>_get_value_id\<close> runs \<^verbatim>\<open>std::lower_bound\<close> with \<^verbatim>\<open><\<close> of the element type, here \<open>lt\<close>.
\<close>

type_synonym ValueID = "32 word"

definition get_value_id :: "('a \<Rightarrow> 'a \<Rightarrow> bool) \<Rightarrow> 'a list \<Rightarrow> 'a \<Rightarrow> ValueID" where
  "get_value_id lt dictionary v = of_nat (lower_bound lt dictionary v)"

datatype ZsType = FixedSize1ByteAligned | FixedSize2ByteAligned | FixedSize4ByteAligned

definition get_fixed_size_byte_aligned_encoding :: "nat \<Rightarrow> ZsType" where
  "get_fixed_size_byte_aligned_encoding unique_values_count =
     (if unique_values_count \<le> 255 then FixedSize1ByteAligned
      else if unique_values_count \<le> 65535 then FixedSize2ByteAligned
      else FixedSize4ByteAligned)"

text \<open>
  Modelled from the spec: \<^verbatim>\<open>encode_by_zs_type\<close> and the fixed-size byte-aligned vectors
  are declared outside the files at hand. The spec gives them 1, 2 or 4 bytes per
  element and a \<^verbatim>\<open>get(i)\<close> that yields a 32-bit unsigned integer; storing narrows each
  element to the width of the vector and reading widens it again.
\<close>

datatype ZsVector =
    FixedSize1 "8 word list"
  | FixedSize2 "16 word list"
  | FixedSize4 "32 word list"

definition encode_by_zs_type :: "ZsType \<Rightarrow> 32 word list \<Rightarrow> ZsVector" where
  "encode_by_zs_type zs_type vector =
     (case zs_type of
        FixedSize1ByteAligned \<Rightarrow> FixedSize1 (map ucast vector)
      | FixedSize2ByteAligned \<Rightarrow> FixedSize2 (map ucast vector)
      | FixedSize4ByteAligned \<Rightarrow> FixedSize4 vector)"

definition zs_get :: "ZsVector \<Rightarrow> nat \<Rightarrow> 32 word" where
  "zs_get vector i =
     (case vector of
        FixedSize1 data \<Rightarrow> ucast (data ! i)
      | FixedSize2 data \<Rightarrow> ucast (data ! i)
      | FixedSize4 data \<Rightarrow> data ! i)"

definition zs_type_of :: "ZsVector \<Rightarrow> ZsType" where
  "zs_type_of vector =
     (case vector of
        FixedSize1 data \<Rightarrow> FixedSize1ByteAligned
      | FixedSize2 data \<Rightarrow> FixedSize2ByteAligned
      | FixedSize4 data \<Rightarrow> FixedSize4ByteAligned)"

definition zs_size :: "ZsVector \<Rightarrow> nat" where
  "zs_size vector =
     (case vector of
        FixedSize1 data \<Rightarrow> length data
      | FixedSize2 data \<Rightarrow> length data
      | FixedSize4 data \<Rightarrow> length data)"

record 'a DictionaryColumn =
  dictionary :: "'a list"
  attribute_vector :: ZsVector
  null_value_id :: ValueID

text \<open>
  \<^verbatim>\<open>_encode\<close> is a template over the element type \<open>T\<close> and uses \<^verbatim>\<open><\<close> and \<^verbatim>\<open>==\<close> of \<open>T\<close>;
  they are the arguments \<open>lt\<close> and \<open>eq\<close> of the functions below.

  The first half of \<^verbatim>\<open>_encode\<close>: copy the values, move the NULL slots behind
  \<^verbatim>\<open>erase_from_here_it\<close> and erase them (nullable columns only), sort, drop adjacent
  duplicates.
\<close>

definition build_dictionary ::
  "('a \<Rightarrow> 'a \<Rightarrow> bool) \<Rightarrow> ('a \<Rightarrow> 'a \<Rightarrow> bool) \<Rightarrow> 'a ValueColumn \<Rightarrow> 'a list" where
  "build_dictionary lt eq value_column =
     (let dictionary = vc_values value_column;
          dictionary =
            (case null_values value_column of
               None \<Rightarrow> dictionary
             | Some nulls \<Rightarrow>
                 (let (swapped, erase_from_here) =
                        swap_nulls_to_back (rev nulls) (length dictionary) dictionary (length dictionary)
                  in take erase_from_here swapped))
      in std_unique eq (std_sort lt dictionary))"

text \<open>
  The loop that fills the attribute vector: a NULL row gets the null value id, any other
  row the \<^verbatim>\<open>lower_bound\<close> position of its value. The two branches of the source (with and
  without NULL flags) are the two cases; in the first the two iterators advance together
  from the front.
\<close>

definition build_attribute_vector ::
  "('a \<Rightarrow> 'a \<Rightarrow> bool) \<Rightarrow> 'a ValueColumn \<Rightarrow> 'a list \<Rightarrow> ValueID \<Rightarrow> 32 word list" where
  "build_attribute_vector lt value_column dict null_id =
     (case null_values value_column of
        Some nulls \<Rightarrow>
          map (\<lambda>i. if nulls ! i then null_id else get_value_id lt dict (vc_values value_column ! i))
              [0..<length (vc_values value_column)]
      | None \<Rightarrow> map (\<lambda>v. get_value_id lt dict v) (vc_values value_column))"

text \<open>
  \<^verbatim>\<open>_encode\<close>: the null value id is the dictionary size cast to 32 bits, and the
  attribute vector is compressed with the type chosen for \<^verbatim>\<open>dictionary.size() + 1\<close>.
\<close>

definition encode ::
  "('a \<Rightarrow> 'a \<Rightarrow> bool) \<Rightarrow> ('a \<Rightarrow> 'a \<Rightarrow> bool) \<Rightarrow> 'a ValueColumn \<Rightarrow> 'a DictionaryColumn" where
  "encode lt eq value_column =
     (let dict = build_dictionary lt eq value_column;
          null_id = (of_nat (length dict) :: ValueID);
          attr = build_attribute_vector lt value_column dict null_id;
          zs_type = get_fixed_size_byte_aligned_encoding (length dict + 1)
      in \<lparr> dictionary = dict,
           attribute_vector = encode_by_zs_type zs_type attr,
           null_value_id = null_id \<rparr>)"

text \<open>The largest value a vector of each type can hold (the maxima of 8, 16 and 32 bits).\<close>

definition zs_max_value :: "ZsType \<Rightarrow> nat" where
  "zs_max_value zs_type =
     (case zs_type of
        FixedSize1ByteAligned \<Rightarrow> 255
      | FixedSize2ByteAligned \<Rightarrow> 65535
      | FixedSize4ByteAligned \<Rightarrow> 4294967295)"

text \<open>Whether row \<open>i\<close> of a value column is NULL: its flag, when the column has flags.\<close>

definition row_is_null :: "'a ValueColumn \<Rightarrow> nat \<Rightarrow> bool" where
  "row_is_null c i = (case null_values c of None \<Rightarrow> False | Some nulls \<Rightarrow> nulls ! i)"

text \<open>The values of the rows of a value column that are not NULL.\<close>

definition non_null_values :: "'a ValueColumn \<Rightarrow> 'a set" where
  "non_null_values c = {vc_values c ! i | i. i < length (vc_values c) \<and> \<not> row_is_null c i}"

section \<open>Run-length column (run\_length\_column.cpp)\<close>






section \<open>SQL translator (sql\_translator.cpp)\<close>

subsection \<open>The parse tree\<close>

text \<open>
  The parser library's expression node, reduced to the members the translator reads:
  the node type, the operator, the two operand pointers, the expression list, the name,
  the alias and the integer payload. A null pointer is \<open>None\<close>.
\<close>

datatype ExprType =
    kExprLiteralFloat | kExprLiteralString | kExprLiteralInt | kExprLiteralNull
  | kExprStar | kExprPlaceholder | kExprColumnRef | kExprFunctionRef
  | kExprOperator | kExprSelect

datatype OperatorType =
    kOpNone | kOpBetween | kOpCase
  | kOpPlus | kOpMinus | kOpAsterisk | kOpSlash | kOpPercentage | kOpCaret
  | kOpEquals | kOpNotEquals | kOpLess | kOpLessEq | kOpGreater | kOpGreaterEq
  | kOpLike | kOpNotLike | kOpILike
  | kOpAnd | kOpOr | kOpIn
  | kOpNot | kOpUnaryMinus | kOpIsNull | kOpExists

datatype hsql_Expr = Expr
  (h_type: ExprType)
  (opType: OperatorType)
  (h_expr: "hsql_Expr option")
  (h_expr2: "hsql_Expr option")
  (exprList: "hsql_Expr list")
  (h_name: string)
  (h_alias: "string option")
  (ival: int)

definition isType :: "hsql_Expr \<Rightarrow> ExprType \<Rightarrow> bool" where
  "isType e t = (h_type e = t)"

text \<open>\<^verbatim>\<open>GroupByDescription\<close>: the grouping columns and the optional HAVING expression.\<close>

record GroupByDescription =
  gb_columns :: "hsql_Expr list"
  having :: "hsql_Expr option"

subsection \<open>Scan types\<close>

datatype ScanType =
    OpEquals | OpNotEquals | OpLessThan | OpLessThanEquals | OpGreaterThan
  | OpGreaterThanEquals | OpBetween | OpLike | OpNotLike

text \<open>
  \<^verbatim>\<open>translate_operator_type_to_scan_type\<close>: the lookup in the static map; \<open>None\<close> is the
  end iterator, on which the source's \<^verbatim>\<open>DebugAssert\<close> fires.
\<close>

definition translate_operator_type_to_scan_type :: "OperatorType \<Rightarrow> ScanType option" where
  "translate_operator_type_to_scan_type operator_type =
     (case operator_type of
        kOpEquals \<Rightarrow> Some OpEquals
      | kOpNotEquals \<Rightarrow> Some OpNotEquals
      | kOpGreater \<Rightarrow> Some OpGreaterThan
      | kOpGreaterEq \<Rightarrow> Some OpGreaterThanEquals
      | kOpLess \<Rightarrow> Some OpLessThan
      | kOpLessEq \<Rightarrow> Some OpLessThanEquals
      | kOpBetween \<Rightarrow> Some OpBetween
      | kOpLike \<Rightarrow> Some OpLike
      | kOpNotLike \<Rightarrow> Some OpNotLike
      | _ \<Rightarrow> None)"

text \<open>
  \<^verbatim>\<open>get_scan_type_for_reverse_order\<close>: the four entries of the static map, every other
  scan type returned as it is.
\<close>

definition get_scan_type_for_reverse_order :: "ScanType \<Rightarrow> ScanType" where
  "get_scan_type_for_reverse_order scan_type =
     (case scan_type of
        OpGreaterThan \<Rightarrow> OpLessThan
      | OpLessThan \<Rightarrow> OpGreaterThan
      | OpGreaterThanEquals \<Rightarrow> OpLessThanEquals
      | OpLessThanEquals \<Rightarrow> OpGreaterThanEquals
      | _ \<Rightarrow> scan_type)"

subsection \<open>Predicates\<close>

text \<open>
  \<^verbatim>\<open>AllParameterVariant\<close>: a typed value, a column origin or a placeholder. The value
  type \<open>'v\<close> and the column origin type \<open>'co\<close> are declared outside the files at hand.
\<close>

datatype ('v, 'co) AllParameterVariant =
    ParameterValue 'v
  | ParameterColumnOrigin 'co
  | ParameterPlaceholder ValuePlaceholder

definition is_variant :: "('v, 'co) AllParameterVariant \<Rightarrow> bool" where
  "is_variant x = (case x of ParameterValue v \<Rightarrow> True | _ \<Rightarrow> False)"

text \<open>The arguments of the \<^verbatim>\<open>PredicateNode\<close> constructor and the child it is given.\<close>

record ('v, 'co, 'n) PredicateNode =
  pn_column_origin :: 'co
  pn_scan_type :: ScanType
  pn_value :: "('v, 'co) AllParameterVariant"
  pn_value2 :: "'v option"
  pn_left_child :: 'n

definition refers_to_column :: "bool \<Rightarrow> hsql_Expr \<Rightarrow> bool" where
  "refers_to_column allow_function_columns hsql_expr =
     (isType hsql_expr kExprColumnRef
      \<or> (allow_function_columns \<and> isType hsql_expr kExprFunctionRef))"

text \<open>
  The tail of \<^verbatim>\<open>_translate_predicate\<close>, shared by both branches: the value is the
  resolved column when the value operand refers to a column, its parameter variant
  otherwise; the scanned column is the other operand.
\<close>

definition make_predicate_node ::
  "(hsql_Expr \<Rightarrow> ('v, 'co) AllParameterVariant) \<Rightarrow> bool \<Rightarrow> (hsql_Expr \<Rightarrow> 'co) \<Rightarrow> 'n
   \<Rightarrow> hsql_Expr \<Rightarrow> hsql_Expr \<Rightarrow> ScanType \<Rightarrow> 'v option \<Rightarrow> ('v, 'co, 'n) PredicateNode" where
  "make_predicate_node to_all_parameter_variant allow_function_columns resolve_column input_node
       column_hsql_expr value_ref_hsql_expr scan_type value2 =
     \<lparr> pn_column_origin = resolve_column column_hsql_expr,
       pn_scan_type = scan_type,
       pn_value = (if refers_to_column allow_function_columns value_ref_hsql_expr
                   then ParameterColumnOrigin (resolve_column value_ref_hsql_expr)
                   else to_all_parameter_variant value_ref_hsql_expr),
       pn_value2 = value2,
       pn_left_child = input_node \<rparr>"

text \<open>
  \<^verbatim>\<open>_translate_predicate\<close>. \<^verbatim>\<open>HSQLExprTranslator::to_all_parameter_variant\<close> is declared
  outside the files at hand and is the first parameter; \<^verbatim>\<open>resolve_column\<close> is a
  parameter of the source function itself.
\<close>

definition translate_predicate ::
  "(hsql_Expr \<Rightarrow> ('v, 'co) AllParameterVariant) \<Rightarrow> hsql_Expr \<Rightarrow> bool \<Rightarrow> (hsql_Expr \<Rightarrow> 'co) \<Rightarrow> 'n
   \<Rightarrow> error + ('v, 'co, 'n) PredicateNode" where
  "translate_predicate to_all_parameter_variant hsql_expr allow_function_columns resolve_column input_node =
     (case h_expr hsql_expr of
        None \<Rightarrow> Inl (DebugAssertFailed ''hsql malformed'')
      | Some lhs \<Rightarrow>
     (case translate_operator_type_to_scan_type (opType hsql_expr) of
        None \<Rightarrow> Inl (DebugAssertFailed ''Filter expression clause operator is not yet supported.'')
      | Some scan_type \<Rightarrow>
          if scan_type = OpBetween then
            (if length (exprList hsql_expr) \<noteq> 2 then Inl (AssertFailed ''Need two arguments for BETWEEEN'')
             else
               (let expr0 = exprList hsql_expr ! 0;
                    expr1 = exprList hsql_expr ! 1;
                    value2_all_parameter_variant = to_all_parameter_variant expr1
                in case value2_all_parameter_variant of
                     ParameterValue value2 \<Rightarrow>
                       if \<not> refers_to_column allow_function_columns lhs
                       then Inl (AssertFailed ''For BETWEENS, hsql_expr.expr has to refer to a column'')
                       else Inr (make_predicate_node to_all_parameter_variant allow_function_columns
                                   resolve_column input_node lhs expr0 scan_type (Some value2))
                   | _ \<Rightarrow> Inl (AssertFailed ''Value2 of a Predicate has to be AllTypeVariant'')))
          else
            (case h_expr2 hsql_expr of
               None \<Rightarrow> Inl (DebugAssertFailed ''hsql malformed'')
             | Some rhs \<Rightarrow>
                 if \<not> refers_to_column allow_function_columns lhs then
                   (if \<not> refers_to_column allow_function_columns rhs
                    then Inl (AssertFailed ''One side of the expression has to refer to a column.'')
                    else Inr (make_predicate_node to_all_parameter_variant allow_function_columns
                                resolve_column input_node rhs lhs
                                (get_scan_type_for_reverse_order scan_type) None))
                 else Inr (make_predicate_node to_all_parameter_variant allow_function_columns
                             resolve_column input_node lhs rhs scan_type None))))"

subsection \<open>Aggregates\<close>

text \<open>
  What \<^verbatim>\<open>_translate_aggregate\<close> asks of code declared outside the files at hand:
  the translation of a parse-tree expression into an LQP expression, the type and the
  equality of LQP expressions, and the two lookups on the temporary
  \<^verbatim>\<open>groupby_aliasing_node\<close> (the column origin of a named column reference, and the
  output column id of a column origin).
\<close>

record ('e, 'co) translator_env =
  to_lqp_expression :: "hsql_Expr \<Rightarrow> 'e"
  expression_type :: "'e \<Rightarrow> ExpressionType"
  expression_equal :: "'e \<Rightarrow> 'e \<Rightarrow> bool"
  find_column_origin :: "hsql_Expr \<Rightarrow> 'co option"
  find_output_column_id :: "'co \<Rightarrow> nat option"


text \<open>The loop that collects the column origins of the GROUP BY columns.\<close>

fun collect_groupby_column_origins ::
  "('e, 'co) translator_env \<Rightarrow> hsql_Expr list \<Rightarrow> error + 'co list" where
  "collect_groupby_column_origins env [] = Inr []"
| "collect_groupby_column_origins env (groupby_hsql_expr # rest) =
     (if \<not> isType groupby_hsql_expr kExprColumnRef
      then Inl (AssertFailed ''Grouping on complex expressions is not yet supported.'')
      else case find_column_origin env groupby_hsql_expr of
             None \<Rightarrow> Inl (DebugAssertFailed ''Couldn't resolve groupby column.'')
           | Some column_origin \<Rightarrow>
               (case collect_groupby_column_origins env rest of
                  Inl e \<Rightarrow> Inl e
                | Inr origins \<Rightarrow> Inr (column_origin # origins)))"

text \<open>
  The loop over the SELECT list. The state is the list of aggregate expressions, the
  list of output columns (an output column id of the aggregate node and the optional
  alias) and \<^verbatim>\<open>current_aggregate_column_id\<close>.
\<close>

fun translate_select_list ::
  "('e, 'co) translator_env \<Rightarrow> bool \<Rightarrow> 'co list \<Rightarrow> hsql_Expr list
   \<Rightarrow> 'e list \<times> (nat \<times> string option) list \<times> nat
   \<Rightarrow> error + ('e list \<times> (nat \<times> string option) list \<times> nat)" where
  "translate_select_list env has_group_by groupby_column_origins [] state = Inr state"
| "translate_select_list env has_group_by groupby_column_origins (select_column_hsql_expr # rest)
       (aggregate_expressions, output_columns, current_aggregate_column_id) =
     (if isType select_column_hsql_expr kExprFunctionRef then
        translate_select_list env has_group_by groupby_column_origins rest
          (aggregate_expressions @ [to_lqp_expression env select_column_hsql_expr],
           output_columns @ [(current_aggregate_column_id, h_alias select_column_hsql_expr)],
           current_aggregate_column_id + 1)
      else if isType select_column_hsql_expr kExprColumnRef then
        (if \<not> has_group_by then
           Inl (AssertFailed
             ''SELECT list of aggregate contains a column, but the query does not have a GROUP BY clause.'')
         else case find_column_origin env select_column_hsql_expr of
                None \<Rightarrow> Inl (DebugAssertFailed ''Couldn't resolve groupby column.'')
              | Some column_origin \<Rightarrow>
                  if column_origin \<notin> set groupby_column_origins then
                    Inl (AssertFailed (''Column '' @ [CHR 0x27] @ h_name select_column_hsql_expr @ [CHR 0x27]
                           @ '' is specified in SELECT list, but not in GROUP BY clause.''))
                  else (case find_output_column_id env column_origin of
                          None \<Rightarrow> Inl (DebugAssertFailed ''Couldn't resolve groupby column.'')
                        | Some column_id \<Rightarrow>
                            translate_select_list env has_group_by groupby_column_origins rest
                              (aggregate_expressions,
                               output_columns @ [(column_id, h_alias select_column_hsql_expr)],
                               current_aggregate_column_id)))
      else Inl (Failed ''Unsupported item in projection list for AggregateOperator.''))"

text \<open>
  \<^verbatim>\<open>_retrieve_having_aggregates\<close>: a function reference is translated and kept when the
  result is a function expression; any other node hands on what its two operands yield.
\<close>

fun retrieve_having_aggregates :: "('e, 'co) translator_env \<Rightarrow> hsql_Expr \<Rightarrow> 'e list" where
  "retrieve_having_aggregates env (Expr t op l r el n a iv) =
     (if t = kExprFunctionRef then
        (let translated = to_lqp_expression env (Expr t op l r el n a iv)
         in if expression_type env translated = Function then [translated] else [])
      else
        (case l of Some left_expr \<Rightarrow> retrieve_having_aggregates env left_expr | None \<Rightarrow> [])
        @ (case r of Some right_expr \<Rightarrow> retrieve_having_aggregates env right_expr | None \<Rightarrow> []))"

text \<open>
  The loop over the HAVING aggregates: one that equals no aggregate expression gathered
  so far is pushed to the back.
\<close>

fun add_having_aggregates :: "('e, 'co) translator_env \<Rightarrow> 'e list \<Rightarrow> 'e list \<Rightarrow> 'e list" where
  "add_having_aggregates env aggregate_expressions [] = aggregate_expressions"
| "add_having_aggregates env aggregate_expressions (having_expr # rest) =
     (if list_ex (\<lambda>expr. expression_equal env expr having_expr) aggregate_expressions
      then add_having_aggregates env aggregate_expressions rest
      else add_having_aggregates env (aggregate_expressions @ [having_expr]) rest)"

text \<open>
  Modelled from the spec: the class \<^verbatim>\<open>AggregateNode\<close> is declared outside the files at
  hand. The spec gives it a list of aggregate expressions and an ordered list of group-by
  column origins, and has it output the group-by columns first, then the aggregates.
  \<^verbatim>\<open>find_column_origin_by_output_column_id\<close> is the lookup in that output list; what it
  does with an id beyond the list is not known and is \<open>None\<close> here.
\<close>

record ('e, 'co) AggregateNode =
  aggregate_expressions :: "'e list"
  groupby_column_origins :: "'co list"

datatype ('e, 'co) AggregateOutputColumn = GroupByColumn 'co | AggregateColumn 'e

definition aggregate_output_columns :: "('e, 'co) AggregateNode \<Rightarrow> ('e, 'co) AggregateOutputColumn list" where
  "aggregate_output_columns node =
     map GroupByColumn (groupby_column_origins node) @ map AggregateColumn (aggregate_expressions node)"

definition find_column_origin_by_output_column_id ::
  "('e, 'co) AggregateNode \<Rightarrow> nat \<Rightarrow> ('e, 'co) AggregateOutputColumn option" where
  "find_column_origin_by_output_column_id node column_id =
     (if column_id < length (aggregate_output_columns node)
      then Some (aggregate_output_columns node ! column_id) else None)"

text \<open>
  The result of \<^verbatim>\<open>_translate_aggregate\<close>: the aggregate node, the HAVING expression that
  \<^verbatim>\<open>_translate_having\<close> places between the two nodes, and the expressions of the final
  projection node, each the aggregate node's column of an output column id together with
  the alias.
\<close>

record ('e, 'co) AggregateTranslation =
  aggregate_node :: "('e, 'co) AggregateNode"
  having_clause :: "hsql_Expr option"
  projection_expressions :: "(('e, 'co) AggregateOutputColumn option \<times> string option) list"

text \<open>
  \<^verbatim>\<open>_translate_aggregate\<close> from the collection of the group-by column origins onwards.
  The \<^verbatim>\<open>groupby_aliasing_node\<close> built before that is represented by its two lookups in
  the environment.
\<close>

definition translate_aggregate ::
  "('e, 'co) translator_env \<Rightarrow> hsql_Expr list \<Rightarrow> GroupByDescription option
   \<Rightarrow> error + ('e, 'co) AggregateTranslation" where
  "translate_aggregate env select_list group_by =
     (case (case group_by of
              None \<Rightarrow> Inr []
            | Some g \<Rightarrow> collect_groupby_column_origins env (gb_columns g)) of
        Inl e \<Rightarrow> Inl e
      | Inr origins \<Rightarrow>
          (let current_aggregate_column_id =
                 (case group_by of None \<Rightarrow> 0 | Some g \<Rightarrow> length (gb_columns g))
           in case translate_select_list env (group_by \<noteq> None) origins select_list
                     ([], [], current_aggregate_column_id) of
                Inl e \<Rightarrow> Inl e
              | Inr (select_aggregates, output_columns, next_column_id) \<Rightarrow>
                  (let has_having = (case group_by of None \<Rightarrow> False | Some g \<Rightarrow> having g \<noteq> None);
                       all_aggregates =
                         (case group_by of
                            None \<Rightarrow> select_aggregates
                          | Some g \<Rightarrow>
                              (case having g of
                                 None \<Rightarrow> select_aggregates
                               | Some h \<Rightarrow> add_having_aggregates env select_aggregates
                                             (retrieve_having_aggregates env h)));
                       node = \<lparr> aggregate_expressions = all_aggregates,
                                groupby_column_origins = origins \<rparr>
                   in Inr \<lparr> aggregate_node = node,
                            having_clause = (case group_by of None \<Rightarrow> None | Some g \<Rightarrow> having g),
                            projection_expressions =
                              map (\<lambda>(column_id, alias).
                                     (find_column_origin_by_output_column_id node column_id, alias))
                                  output_columns \<rparr>)))"


subsection \<open>A concrete query environment\<close>

text \<open>
  A stand-in for the LQP expressions of the examples: a column reference by column
  origin, or an aggregate function over one argument, each with an optional alias.
\<close>

datatype example_expression =
    ColumnExpression nat "string option"
  | AggregateExpression AggregateFunction example_expression "string option"

definition example_expression_type :: "example_expression \<Rightarrow> ExpressionType" where
  "example_expression_type e =
     (case e of ColumnExpression c a \<Rightarrow> Column | AggregateExpression f x a \<Rightarrow> Function)"

text \<open>
  The environment of a query on a stored table with the given column names, in the
  table's column order. The column origin of a column is its index in the table. The
  \<^verbatim>\<open>groupby_aliasing_node\<close> is a projection of every input column in input order, so
  the output column id of a column origin is that same index. Function references are
  translated by name, their single argument being the first entry of the expression
  list.
\<close>

definition column_index :: "string list \<Rightarrow> string \<Rightarrow> nat option" where
  "column_index column_names column_name =
     (if column_name \<in> set column_names
      then Some (length (takeWhile (\<lambda>n. n \<noteq> column_name) column_names)) else None)"

fun example_to_lqp_expression :: "string list \<Rightarrow> hsql_Expr \<Rightarrow> example_expression" where
  "example_to_lqp_expression column_names (Expr t op l r el n a iv) =
     (if t = kExprFunctionRef then
        AggregateExpression
          (if n = ''SUM'' then Sum' else if n = ''AVG'' then Avg else if n = ''MIN'' then Min'
           else if n = ''MAX'' then Max' else Count)
          (case el of
             [] \<Rightarrow> ColumnExpression 0 None
           | argument # _ \<Rightarrow> example_to_lqp_expression column_names argument)
          a
      else ColumnExpression (case column_index column_names n of Some i \<Rightarrow> i | None \<Rightarrow> 0) a)"

definition stored_table_env :: "string list \<Rightarrow> (example_expression, nat) translator_env" where
  "stored_table_env column_names =
     \<lparr> to_lqp_expression = example_to_lqp_expression column_names,
       expression_type = example_expression_type,
       expression_equal = (=),
       find_column_origin = (\<lambda>e. column_index column_names (h_name e)),
       find_output_column_id = (\<lambda>origin. if origin < length column_names then Some origin else None) \<rparr>"

text \<open>Parse-tree nodes of the example queries.\<close>

definition column_ref :: "string \<Rightarrow> hsql_Expr" where
  "column_ref n = Expr kExprColumnRef kOpNone None None [] n None 0"

definition function_ref :: "string \<Rightarrow> hsql_Expr \<Rightarrow> hsql_Expr" where
  "function_ref n argument = Expr kExprFunctionRef kOpNone None None [argument] n None 0"

definition literal_int :: "int \<Rightarrow> hsql_Expr" where
  "literal_int i = Expr kExprLiteralInt kOpNone None None [] [] None i"


definition binary_operator :: "OperatorType \<Rightarrow> hsql_Expr \<Rightarrow> hsql_Expr \<Rightarrow> hsql_Expr" where
  "binary_operator op l r = Expr kExprOperator op (Some l) (Some r) [] [] None 0"

section \<open>SetUnion operator (set\_union.cpp)\<close>

subsection \<open>Reference tables\<close>

text \<open>
  A row id is a chunk id and an offset in that chunk, ordered lexicographically. The
  operator only compares and copies row ids, so the functions below take any linearly
  ordered type \<open>'r\<close> for them.
\<close>

type_synonym RowID = "32 word \<times> 32 word"

text \<open>
  A reference column holds the referenced table, the referenced column id and a shared
  pointer to a position list. Columns of one chunk that hold the same pointer share the
  list; the pointer is modelled as an address into the position lists of the chunk, which
  the chunk carries along with its columns.
\<close>

record ReferenceColumn =
  referenced_table :: nat
  referenced_column_id :: nat
  pos_list :: nat

record 'r Chunk =
  pos_lists :: "'r list list"
  columns :: "ReferenceColumn list"

datatype TableType = Data | References

record 'r Table =
  column_names :: "string list"
  column_types :: "string list"
  chunk_size :: nat
  chunks :: "'r Chunk list"
  table_type :: TableType

text \<open>
  Modelled from the spec: \<^verbatim>\<open>Table\<close> and \<^verbatim>\<open>Chunk\<close> are declared outside the files at
  hand. A table has one name and one type per column; a chunk has as many rows as its
  columns are long, read off its first column; the row count of a table is the sum over
  its chunks.
\<close>

definition column_count :: "'r Table \<Rightarrow> nat" where
  "column_count t = length (column_names t)"

definition column_pos_list :: "'r Chunk \<Rightarrow> nat \<Rightarrow> 'r list" where
  "column_pos_list chunk column_id = pos_lists chunk ! pos_list (columns chunk ! column_id)"

definition chunk_rows :: "'r Chunk \<Rightarrow> nat" where
  "chunk_rows chunk = (if columns chunk = [] then 0 else length (column_pos_list chunk 0))"

definition row_count :: "'r Table \<Rightarrow> nat" where
  "row_count t = sum_list (map chunk_rows (chunks t))"

subsection \<open>Input analysis\<close>

text \<open>
  \<^verbatim>\<open>add_column_segments\<close>: the scan over the columns of the first chunk. The state is the
  current position list pointer (null at the start) and the segment begins gathered so
  far; a column whose pointer differs from the current one begins a segment.
\<close>

definition segment_step :: "'r Chunk \<Rightarrow> nat \<Rightarrow> nat option \<times> nat list \<Rightarrow> nat option \<times> nat list" where
  "segment_step first_chunk column_id st =
     (let p = pos_list (columns first_chunk ! column_id)
      in if fst st \<noteq> Some p then (Some p, snd st @ [column_id]) else st)"

definition add_column_segments :: "'r Table \<Rightarrow> nat list \<Rightarrow> nat list" where
  "add_column_segments t begins =
     snd (fold (segment_step (chunks t ! 0)) [0..<column_count t] (None, begins))"

text \<open>
  What \<^verbatim>\<open>_analyze_input\<close> leaves behind: an early result, or the three member vectors
  \<^verbatim>\<open>_column_segment_begins\<close>, \<^verbatim>\<open>_referenced_tables\<close> and \<^verbatim>\<open>_referenced_column_ids\<close>.
\<close>

datatype 'r Analysis =
    EarlyResult "'r Table"
  | Segments (column_segment_begins: "nat list") (referenced_tables: "nat list")
      (referenced_column_ids: "nat list")

text \<open>
  \<^verbatim>\<open>_analyze_input\<close>. The loop that compares the column types and names stops at the
  first column that differs, the type being checked before the name. The verification
  of the segments in all chunks is compiled into debug builds only and is left out.
\<close>

fun check_layout :: "'r Table \<Rightarrow> 'r Table \<Rightarrow> nat list \<Rightarrow> error option" where
  "check_layout l r [] = None"
| "check_layout l r (column_idx # rest) =
     (if column_types l ! column_idx \<noteq> column_types r ! column_idx
      then Some (AssertFailed ''Input tables must have the same layout. Column type mismatch.'')
      else if column_names l ! column_idx \<noteq> column_names r ! column_idx
      then Some (AssertFailed ''Input tables must have the same layout. Column name mismatch.'')
      else check_layout l r rest)"

definition analyze_input :: "'r Table \<Rightarrow> 'r Table \<Rightarrow> error + 'r Analysis" where
  "analyze_input l r =
     (if column_count l \<noteq> column_count r
      then Inl (AssertFailed ''Input tables must have the same layout. Column count mismatch.'')
      else if column_count l = 0 then Inr (EarlyResult l)
      else case check_layout l r [0..<column_count l] of
             Some e \<Rightarrow> Inl e
           | None \<Rightarrow>
               if row_count l = 0 then Inr (EarlyResult r)
               else if row_count r = 0 then Inr (EarlyResult l)
               else if \<not> (table_type l = References \<and> table_type r = References)
               then Inl (AssertFailed ''SetUnion doesn't support non-reference tables yet'')
               else
                 (let begins = add_column_segments r (add_column_segments l []);
                      begins = remdups_adj (sort begins);
                      first_chunk_left = chunks l ! 0
                  in Inr (Segments begins
                       (map (\<lambda>segment_begin. referenced_table (columns first_chunk_left ! segment_begin))
                            begins)
                       (map (\<lambda>column_id. referenced_column_id (columns first_chunk_left ! column_id))
                            [0..<column_count l]))))"

subsection \<open>Reference matrices and virtual position lists\<close>

text \<open>
  \<^verbatim>\<open>build_reference_matrix\<close>: one position list per segment, the concatenation over the
  chunks of the position list of the segment's first column. The source runs the chunks
  in the outer loop and the segments in the inner one; each segment's list receives the
  same elements in the same order.
\<close>

definition build_reference_matrix :: "nat list \<Rightarrow> 'r Table \<Rightarrow> 'r list list" where
  "build_reference_matrix segment_begins input_table =
     map (\<lambda>segment_id.
            concat (map (\<lambda>chunk. column_pos_list chunk (segment_begins ! segment_id))
                        (chunks input_table)))
         [0..<length segment_begins]"

text \<open>
  \<^verbatim>\<open>VirtualPosListCmpContext::operator()\<close>: the loop over the columns of the matrix.
\<close>

fun VirtualPosListCmp :: "'r::linorder list list \<Rightarrow> nat \<Rightarrow> nat \<Rightarrow> bool" where
  "VirtualPosListCmp [] lhs rhs = False"
| "VirtualPosListCmp (reference_matrix_column # rest) lhs rhs =
     (if reference_matrix_column ! lhs < reference_matrix_column ! rhs then True
      else if reference_matrix_column ! rhs < reference_matrix_column ! lhs then False
      else VirtualPosListCmp rest lhs rhs)"

text \<open>
  The virtual position list: the row indices, sorted with \<^verbatim>\<open>std::sort\<close> and the comparator
  above.
\<close>

definition virtual_pos_list :: "'r::linorder list list \<Rightarrow> nat \<Rightarrow> nat list" where
  "virtual_pos_list reference_matrix num_rows =
     std_sort (VirtualPosListCmp reference_matrix) [0..<num_rows]"

subsection \<open>The merge\<close>

text \<open>The lambda \<^verbatim>\<open>cmp\<close>: the loop over \<open>column_idx\<close>, from the given index on.\<close>

function cmp_from :: "'r::linorder list list \<Rightarrow> nat \<Rightarrow> 'r list list \<Rightarrow> nat \<Rightarrow> nat \<Rightarrow> bool" where
  "cmp_from matrix_a idx_a matrix_b idx_b column_idx =
     (if column_idx < length matrix_a then
        (if matrix_a ! column_idx ! idx_a < matrix_b ! column_idx ! idx_b then True
         else if matrix_b ! column_idx ! idx_b < matrix_a ! column_idx ! idx_a then False
         else cmp_from matrix_a idx_a matrix_b idx_b (column_idx + 1))
      else False)"
  by pat_completeness auto
termination
  by (relation "measure (\<lambda>(matrix_a, idx_a, matrix_b, idx_b, column_idx). length matrix_a - column_idx)") auto

definition cmp :: "'r::linorder list list \<Rightarrow> nat \<Rightarrow> 'r list list \<Rightarrow> nat \<Rightarrow> bool" where
  "cmp matrix_a idx_a matrix_b idx_b = cmp_from matrix_a idx_a matrix_b idx_b 0"

text \<open>What stays fixed while the merge loop runs.\<close>

record 'r merge_context =
  reference_matrix_left :: "'r list list"
  reference_matrix_right :: "'r list list"
  virtual_pos_list_left :: "nat list"
  virtual_pos_list_right :: "nat list"
  out_chunk_size :: nat
  segment_begins :: "nat list"
  segment_tables :: "nat list"
  column_ids :: "nat list"
  num_columns :: nat

text \<open>What the merge loop changes.\<close>

record 'r merge_state =
  left_idx :: nat
  right_idx :: nat
  chunk_row_idx :: nat
  result_pos_lists :: "'r list list"
  out_chunks :: "'r Chunk list"

text \<open>\<^verbatim>\<open>emit_row\<close>: one row id is appended to each of the position lists being filled.\<close>

definition emit_row :: "'r list list \<Rightarrow> 'r list list \<Rightarrow> nat \<Rightarrow> 'r list list" where
  "emit_row result reference_matrix row_idx =
     map (\<lambda>pos_list_idx. result ! pos_list_idx @ [reference_matrix ! pos_list_idx ! row_idx])
         [0..<length result]"

text \<open>
  \<^verbatim>\<open>emit_chunk\<close>: for each segment, one reference column per column id of the segment,
  all pointing to the segment's position list.
\<close>

definition emit_chunk :: "'r merge_context \<Rightarrow> 'r list list \<Rightarrow> 'r Chunk" where
  "emit_chunk ctx result =
     \<lparr> pos_lists = result,
       columns =
         concat (map (\<lambda>pos_lists_idx.
                   (let segment_column_id_begin = segment_begins ctx ! pos_lists_idx;
                        segment_column_id_end =
                          (if pos_lists_idx \<ge> length (segment_begins ctx) - 1 then num_columns ctx
                           else segment_begins ctx ! (pos_lists_idx + 1))
                    in map (\<lambda>column_id.
                              \<lparr> referenced_table = segment_tables ctx ! pos_lists_idx,
                                referenced_column_id = column_ids ctx ! column_id,
                                pos_list = pos_lists_idx \<rparr>)
                           [segment_column_id_begin..<segment_column_id_end]))
                 [0..<length result]) \<rparr>"

text \<open>The part of the loop body derived from \<^verbatim>\<open>std::set_union\<close>.\<close>

definition merge_step :: "'r::linorder merge_context \<Rightarrow> 'r merge_state \<Rightarrow> 'r merge_state" where
  "merge_step ctx s =
     (let l = virtual_pos_list_left ctx ! left_idx s;
          r = virtual_pos_list_right ctx ! right_idx s;
          s' =
            (if left_idx s = length (virtual_pos_list_left ctx) then
               s\<lparr> result_pos_lists := emit_row (result_pos_lists s) (reference_matrix_right ctx) r,
                  right_idx := right_idx s + 1 \<rparr>
             else if right_idx s = length (virtual_pos_list_right ctx) then
               s\<lparr> result_pos_lists := emit_row (result_pos_lists s) (reference_matrix_left ctx) l,
                  left_idx := left_idx s + 1 \<rparr>
             else if cmp (reference_matrix_right ctx) r (reference_matrix_left ctx) l then
               s\<lparr> result_pos_lists := emit_row (result_pos_lists s) (reference_matrix_right ctx) r,
                  right_idx := right_idx s + 1 \<rparr>
             else
               s\<lparr> result_pos_lists := emit_row (result_pos_lists s) (reference_matrix_left ctx) l,
                  right_idx := (if \<not> cmp (reference_matrix_left ctx) l (reference_matrix_right ctx) r
                                then right_idx s + 1 else right_idx s),
                  left_idx := left_idx s + 1 \<rparr>)
      in s'\<lparr> chunk_row_idx := chunk_row_idx s + 1 \<rparr>)"

text \<open>The part of the loop body that emits a completed chunk.\<close>

definition emit_completed_chunk :: "'r merge_context \<Rightarrow> 'r merge_state \<Rightarrow> 'r merge_state" where
  "emit_completed_chunk ctx s =
     (if chunk_row_idx s = out_chunk_size ctx \<and> out_chunk_size ctx \<noteq> 0 then
        s\<lparr> out_chunks := out_chunks s @ [emit_chunk ctx (result_pos_lists s)],
           chunk_row_idx := 0,
           result_pos_lists := replicate (length (result_pos_lists s)) [] \<rparr>
      else s)"

text \<open>
  The loop. Both indices start at zero and each step advances them by one at most, so
  neither passes its end; the second line of the condition spells that out, which makes
  the recursion total on every state.
\<close>

function merge_loop :: "'r::linorder merge_context \<Rightarrow> 'r merge_state \<Rightarrow> 'r merge_state" where
  "merge_loop ctx s =
     (if (left_idx s < length (virtual_pos_list_left ctx) \<or> right_idx s < length (virtual_pos_list_right ctx))
         \<and> left_idx s \<le> length (virtual_pos_list_left ctx) \<and> right_idx s \<le> length (virtual_pos_list_right ctx)
      then merge_loop ctx (emit_completed_chunk ctx (merge_step ctx s))
      else s)"
  by pat_completeness auto
termination
  by (relation "measure (\<lambda>(ctx, s). (length (virtual_pos_list_left ctx) - left_idx s)
                                  + (length (virtual_pos_list_right ctx) - right_idx s))")
     (auto simp: emit_completed_chunk_def merge_step_def Let_def)

text \<open>
  \<^verbatim>\<open>_on_execute\<close>. The output table takes its layout from the left input and the larger
  of the two chunk sizes; after the loop a trailing chunk is emitted when rows are
  pending.
\<close>

definition on_execute :: "'r::linorder Table \<Rightarrow> 'r Table \<Rightarrow> error + 'r Table" where
  "on_execute l r =
     (case analyze_input l r of
        Inl e \<Rightarrow> Inl e
      | Inr (EarlyResult early_result) \<Rightarrow> Inr early_result
      | Inr (Segments begins tables ids) \<Rightarrow>
          (let matrix_left = build_reference_matrix begins l;
               matrix_right = build_reference_matrix begins r;
               ctx = \<lparr> reference_matrix_left = matrix_left,
                       reference_matrix_right = matrix_right,
                       virtual_pos_list_left = virtual_pos_list matrix_left (row_count l),
                       virtual_pos_list_right = virtual_pos_list matrix_right (row_count r),
                       out_chunk_size = max (chunk_size l) (chunk_size r),
                       segment_begins = begins,
                       segment_tables = tables,
                       column_ids = ids,
                       num_columns = column_count l \<rparr>;
               s = merge_loop ctx
                     \<lparr> left_idx = 0, right_idx = 0, chunk_row_idx = 0,
                       result_pos_lists = replicate (length matrix_left) [],
                       out_chunks = [] \<rparr>;
               final_chunks =
                 (if chunk_row_idx s \<noteq> 0
                  then out_chunks s @ [emit_chunk ctx (result_pos_lists s)]
                  else out_chunks s)
           in Inr \<lparr> column_names = column_names l,
                    column_types = column_types l,
                    chunk_size = max (chunk_size l) (chunk_size r),
                    chunks = final_chunks,
                    table_type = References \<rparr>))"

subsection \<open>Rows as tuples\<close>

text \<open>
  Row \<open>i\<close> of a reference matrix is the tuple of the row ids at index \<open>i\<close> of its columns;
  tuples are compared lexicographically. The rows of a matrix are its rows in index
  order, the rows of a chunk those of its position lists, the rows of the output table
  those of its chunks in order.
\<close>

definition matrix_row :: "'r list list \<Rightarrow> nat \<Rightarrow> 'r list" where
  "matrix_row reference_matrix i = map (\<lambda>reference_matrix_column. reference_matrix_column ! i) reference_matrix"

definition matrix_rows :: "'r list list \<Rightarrow> 'r list list" where
  "matrix_rows reference_matrix =
     map (matrix_row reference_matrix) [0..<length (hd reference_matrix)]"

definition table_rows :: "'r Table \<Rightarrow> 'r list list" where
  "table_rows t = concat (map (\<lambda>chunk. matrix_rows (pos_lists chunk)) (chunks t))"

text \<open>
  \<^verbatim>\<open>std::set_union\<close> on two lists, as the specification words it: the smaller head is
  emitted and its side advanced; equal heads are emitted once and both sides advanced.
\<close>

fun set_union_merge :: "'a::linorder list \<Rightarrow> 'a list \<Rightarrow> 'a list" where
  "set_union_merge [] ys = ys"
| "set_union_merge (x # xs) [] = x # xs"
| "set_union_merge (x # xs) (y # ys) =
     (if y < x then y # set_union_merge (x # xs) ys
      else if x < y then x # set_union_merge xs (y # ys)
      else x # set_union_merge xs ys)"

text \<open>
  The chunking in the words of the specification: with a chunk size of zero everything is
  pending; otherwise full chunks are cut off the front while enough rows remain.
\<close>

function chunkify :: "nat \<Rightarrow> 'a list \<Rightarrow> 'a list list \<times> 'a list" where
  "chunkify m xs =
     (if m = 0 \<or> length xs < m then ([], xs)
      else (let (full, pending) = chunkify m (drop m xs) in (take m xs # full, pending)))"
  by pat_completeness auto
termination
  by (relation "measure (\<lambda>(m, xs). length xs)") auto

text \<open>
  The inputs the operator is meant for: every chunk has a column at every segment begin,
  the pointer of that column is valid, and its position list has the row count of the
  chunk.
\<close>

definition well_formed :: "nat list \<Rightarrow> 'r Table \<Rightarrow> bool" where
  "well_formed begins t =
     list_all (\<lambda>chunk.
        columns chunk \<noteq> []
        \<and> list_all (\<lambda>segment_begin. length (column_pos_list chunk segment_begin) = chunk_rows chunk) begins)
       (chunks t)"

text \<open>
  The loop seen from the rows it emits. A list of rows, turned into one position list
  per segment, is what \<^verbatim>\<open>emit_row\<close> builds up; pushing a row appends it to the pending
  rows and closes a chunk when the pending rows reach a non-zero chunk size.
\<close>

definition rows_to_pos_lists :: "nat \<Rightarrow> 'r list list \<Rightarrow> 'r list list" where
  "rows_to_pos_lists num_segments rows =
     map (\<lambda>pos_list_idx. map (\<lambda>row. row ! pos_list_idx) rows) [0..<num_segments]"

definition push_row :: "nat \<Rightarrow> 'a list list \<times> 'a list \<Rightarrow> 'a \<Rightarrow> 'a list list \<times> 'a list" where
  "push_row m st x =
     (let pending = snd st @ [x]
      in if length pending = m \<and> m \<noteq> 0 then (fst st @ [pending], []) else (fst st, pending))"

definition push_rows :: "nat \<Rightarrow> 'a list list \<times> 'a list \<Rightarrow> 'a list \<Rightarrow> 'a list list \<times> 'a list" where
  "push_rows m st xs = foldl (push_row m) st xs"

text \<open>The chunks of a list of rows: the full chunks and, when rows remain, a trailing one.\<close>

definition chunk_lists :: "nat \<Rightarrow> 'a list \<Rightarrow> 'a list list" where
  "chunk_lists m xs =
     fst (chunkify m xs) @ (if snd (chunkify m xs) = [] then [] else [snd (chunkify m xs)])"

text \<open>The rows of the two inputs in the order of their sorted virtual position lists.\<close>

definition left_rows :: "'r merge_context \<Rightarrow> 'r list list" where
  "left_rows ctx = map (matrix_row (reference_matrix_left ctx)) (virtual_pos_list_left ctx)"

definition right_rows :: "'r merge_context \<Rightarrow> 'r list list" where
  "right_rows ctx = map (matrix_row (reference_matrix_right ctx)) (virtual_pos_list_right ctx)"

text \<open>
  A reference table with one column and one chunk: the chunk size and the position list
  of the column are given.
\<close>

definition single_column_table :: "nat \<Rightarrow> RowID list \<Rightarrow> RowID Table" where
  "single_column_table max_chunk_size position_list =
     \<lparr> column_names = [''a''],
       column_types = [''int''],
       chunk_size = max_chunk_size,
       chunks = [\<lparr> pos_lists = [position_list],
                   columns = [\<lparr> referenced_table = 0, referenced_column_id = 0, pos_list = 0 \<rparr>] \<rparr>],
       table_type = References \<rparr>"

section \<open>Properties of the standard algorithms\<close>

declare lower_bound_loop.simps [simp del]

lemma mset_insert_sorted: "mset (insert_sorted lt x xs) = add_mset x (mset xs)"
  by (induction xs) simp_all

lemma set_insert_sorted: "set (insert_sorted lt x xs) = insert x (set xs)"
  by (induction xs) auto

lemma mset_std_sort: "mset (std_sort lt xs) = mset xs"
  by (induction xs) (simp_all add: std_sort_def mset_insert_sorted)

lemma set_std_sort: "set (std_sort lt xs) = set xs"
  using mset_std_sort [of lt xs] by (metis set_mset_mset)

lemma length_std_sort: "length (std_sort lt xs) = length xs"
  using mset_std_sort [of lt xs] by (metis size_mset)

lemma insert_sorted_insort: "insert_sorted (<) x xs = insort (x::'a::linorder) xs"
  by (induction xs) auto

lemma std_sort_sort: "std_sort (<) xs = sort (xs::'a::linorder list)"
  by (induction xs) (simp_all add: std_sort_def insert_sorted_insort)

lemma std_unique_remdups_adj: "std_unique (=) xs = remdups_adj xs"
  by (induction xs rule: remdups_adj.induct) simp_all

lemma length_std_unique: "length (std_unique eq xs) \<le> length xs"
  by (induction eq xs rule: std_unique.induct) auto

lemma set_std_unique: "set (std_unique eq xs) \<subseteq> set xs"
  by (induction eq xs rule: std_unique.induct) auto

lemma sorted_insert_sorted:
  fixes f :: "'a \<Rightarrow> 'b::linorder"
  assumes "sorted (map f xs)"
  shows "sorted (map f (insert_sorted (\<lambda>a b. f a < f b) x xs))"
  using assms
  by (induction xs) (auto simp: set_insert_sorted)

lemma sorted_std_sort:
  fixes f :: "'a \<Rightarrow> 'b::linorder"
  shows "sorted (map f (std_sort (\<lambda>a b. f a < f b) xs))"
  by (induction xs) (simp_all add: std_sort_def sorted_insert_sorted)

declare chunkify.simps [simp del]
declare merge_loop.simps [simp del]

lemma swo_irrefl: "strict_weak_order_on V lt eq \<Longrightarrow> x \<in> V \<Longrightarrow> \<not> lt x x"
  unfolding strict_weak_order_on_def by blast

lemma swo_trans:
  "strict_weak_order_on V lt eq \<Longrightarrow> x \<in> V \<Longrightarrow> y \<in> V \<Longrightarrow> z \<in> V \<Longrightarrow> lt x y \<Longrightarrow> lt y z \<Longrightarrow> lt x z"
  unfolding strict_weak_order_on_def by blast

lemma swo_eq_trans:
  "strict_weak_order_on V lt eq \<Longrightarrow> x \<in> V \<Longrightarrow> y \<in> V \<Longrightarrow> z \<in> V \<Longrightarrow> eq x y \<Longrightarrow> eq y z \<Longrightarrow> eq x z"
  unfolding strict_weak_order_on_def by blast

lemma swo_eq_iff:
  "strict_weak_order_on V lt eq \<Longrightarrow> x \<in> V \<Longrightarrow> y \<in> V \<Longrightarrow> eq x y \<longleftrightarrow> \<not> lt x y \<and> \<not> lt y x"
  unfolding strict_weak_order_on_def by blast

lemma swo_asym:
  assumes "strict_weak_order_on V lt eq" "x \<in> V" "y \<in> V" "lt x y"
  shows "\<not> lt y x"
proof
  assume "lt y x"
  then have "lt x x" using swo_trans [OF assms(1,2,3,2) assms(4)] by simp
  then show False using swo_irrefl [OF assms(1,2)] by simp
qed

lemma swo_negtrans:
  assumes swo: "strict_weak_order_on V lt eq" and V: "x \<in> V" "y \<in> V" "z \<in> V"
    and xz: "lt x z"
  shows "lt x y \<or> lt y z"
proof (rule ccontr)
  assume n: "\<not> (lt x y \<or> lt y z)"
  have "\<not> lt y x"
  proof
    assume "lt y x"
    then have "lt y z" using swo_trans [OF swo V(2,1,3)] xz by simp
    with n show False by simp
  qed
  with n have xy: "eq x y" using swo_eq_iff [OF swo V(1,2)] by simp
  have "\<not> lt z y"
  proof
    assume "lt z y"
    then have "lt x y" using swo_trans [OF swo V(1,3,2)] xz by simp
    with n show False by simp
  qed
  with n have yz: "eq y z" using swo_eq_iff [OF swo V(2,3)] by simp
  have "eq x z" using swo_eq_trans [OF swo V xy yz] .
  then show False using swo_eq_iff [OF swo V(1,3)] xz by simp
qed

lemma sorted_insert_sorted_swo:
  assumes swo: "strict_weak_order_on V lt eq" and x: "x \<in> V"
  shows "set xs \<subseteq> V \<Longrightarrow> sorted_wrt (\<lambda>a b. \<not> lt b a) xs
         \<Longrightarrow> sorted_wrt (\<lambda>a b. \<not> lt b a) (insert_sorted lt x xs)"
proof (induction xs)
  case Nil
  then show ?case by simp
next
  case (Cons y ys)
  from Cons.prems have y: "y \<in> V" and ys: "set ys \<subseteq> V"
    and after: "\<forall>z\<in>set ys. \<not> lt z y" and s: "sorted_wrt (\<lambda>a b. \<not> lt b a) ys"
    by simp_all
  show ?case
  proof (cases "lt y x")
    case True
    have "\<not> lt x y" using swo_asym [OF swo y x True] .
    with after have "\<forall>z\<in>set (insert_sorted lt x ys). \<not> lt z y"
      by (simp add: set_insert_sorted)
    with True Cons.IH [OF ys s] show ?thesis by simp
  next
    case False
    have "\<forall>z\<in>set ys. \<not> lt z x"
    proof
      fix z assume z: "z \<in> set ys"
      then have zV: "z \<in> V" using ys by blast
      show "\<not> lt z x"
      proof
        assume "lt z x"
        then have "lt z y \<or> lt y x" by (rule swo_negtrans [OF swo zV y x])
        with after z False show False by blast
      qed
    qed
    with False after s show ?thesis by simp
  qed
qed

lemma sorted_std_sort_swo:
  assumes swo: "strict_weak_order_on V lt eq"
  shows "set xs \<subseteq> V \<Longrightarrow> sorted_wrt (\<lambda>a b. \<not> lt b a) (std_sort lt xs)"
proof (induction xs)
  case Nil
  then show ?case by (simp add: std_sort_def)
next
  case (Cons x xs)
  then have x: "x \<in> V" and xs: "set xs \<subseteq> V" by simp_all
  have "set (std_sort lt xs) \<subseteq> V" using xs by (simp add: set_std_sort)
  then have "sorted_wrt (\<lambda>a b. \<not> lt b a) (insert_sorted lt x (std_sort lt xs))"
    using Cons.IH [OF xs] by (rule sorted_insert_sorted_swo [OF swo x])
  then show ?case by (simp add: std_sort_def)
qed

lemma std_unique_swo:
  "strict_weak_order_on V lt eq \<Longrightarrow> set xs \<subseteq> V \<Longrightarrow> sorted_wrt (\<lambda>a b. \<not> lt b a) xs
         \<Longrightarrow> sorted_wrt lt (std_unique eq xs)
           \<and> (\<forall>v\<in>set xs. \<exists>u\<in>set (std_unique eq xs). eq u v)"
proof (induction eq xs rule: std_unique.induct)
  case (1 eq)
  then show ?case by simp
next
  case (2 eq x)
  note swo = "2.prems"(1)
  from "2.prems" have x: "x \<in> V" by simp
  have "eq x x" using swo_eq_iff [OF swo x x] swo_irrefl [OF swo x] by simp
  then show ?case by simp
next
  case (3 eq x y xs)
  note swo = "3.prems"(1)
  from "3.prems" have x: "x \<in> V" and y: "y \<in> V" and xs: "set xs \<subseteq> V"
    and nyx: "\<not> lt y x" and ax: "\<forall>z\<in>set xs. \<not> lt z x" and ay: "\<forall>z\<in>set xs. \<not> lt z y"
    and s: "sorted_wrt (\<lambda>a b. \<not> lt b a) xs"
    by simp_all
  show ?case
  proof (cases "eq x y")
    case True
    have p: "set (x # xs) \<subseteq> V" "sorted_wrt (\<lambda>a b. \<not> lt b a) (x # xs)"
      using x xs ax s by simp_all
    from "3.IH"(1) [OF True swo p] have
      st: "sorted_wrt lt (std_unique eq (x # xs))" and
      rep: "\<forall>v\<in>set (x # xs). \<exists>u\<in>set (std_unique eq (x # xs)). eq u v"
      by simp_all
    from rep obtain u where u: "u \<in> set (std_unique eq (x # xs))" "eq u x" by auto
    have uV: "u \<in> V" using u(1) set_std_unique [of eq "x # xs"] p(1) by blast
    have "eq u y" using swo_eq_trans [OF swo uV x y u(2) True] .
    with u have "\<exists>u\<in>set (std_unique eq (x # xs)). eq u y" by blast
    with rep st True show ?thesis by simp
  next
    case False
    have p: "set (y # xs) \<subseteq> V" "sorted_wrt (\<lambda>a b. \<not> lt b a) (y # xs)"
      using y xs ay s by simp_all
    from "3.IH"(2) [OF False swo p] have
      st: "sorted_wrt lt (std_unique eq (y # xs))" and
      rep: "\<forall>v\<in>set (y # xs). \<exists>u\<in>set (std_unique eq (y # xs)). eq u v"
      by simp_all
    have xy: "lt x y" using False nyx swo_eq_iff [OF swo x y] by simp
    have below: "\<forall>z\<in>set (std_unique eq (y # xs)). lt x z"
    proof
      fix z assume "z \<in> set (std_unique eq (y # xs))"
      then have z: "z \<in> set (y # xs)" using set_std_unique [of eq "y # xs"] by blast
      then have zV: "z \<in> V" using p(1) by blast
      from z ay swo_irrefl [OF swo y] have "\<not> lt z y" by auto
      moreover have "lt x z \<or> lt z y" using swo_negtrans [OF swo x zV y xy] .
      ultimately show "lt x z" by simp
    qed
    have "eq x x" using swo_eq_iff [OF swo x x] swo_irrefl [OF swo x] by simp
    with rep st below False show ?thesis by auto
  qed
qed

lemma lower_bound_loop_spec:
  assumes "\<forall>i j. i \<le> j \<and> j < length xs \<and> lt (xs ! j) v \<longrightarrow> lt (xs ! i) v"
    and "first + len \<le> length xs"
    and "\<forall>i<first. lt (xs ! i) v"
    and "\<forall>i. first + len \<le> i \<and> i < length xs \<longrightarrow> \<not> lt (xs ! i) v"
  shows "first \<le> lower_bound_loop lt xs v first len
       \<and> lower_bound_loop lt xs v first len \<le> first + len
       \<and> (\<forall>i<lower_bound_loop lt xs v first len. lt (xs ! i) v)
       \<and> (\<forall>i. lower_bound_loop lt xs v first len \<le> i \<and> i < length xs \<longrightarrow> \<not> lt (xs ! i) v)"
  using assms
proof (induction lt xs v first len rule: lower_bound_loop.induct)
  case (1 lt xs v first len)
  note part = "1.prems"(1)
  show ?case
  proof (cases "len = 0")
    case True
    have "lower_bound_loop lt xs v first 0 = first"
      by (simp add: lower_bound_loop.simps [of lt xs v first 0])
    then have "lower_bound_loop lt xs v first len = first"
      using True by simp
    moreover have "first + len = first" using True by simp
    ultimately show ?thesis using "1.prems"(3,4) by simp
  next
    case False
    define half where "half = len div 2"
    define middle where "middle = first + half"
    have hl: "half < len" using False by (simp add: half_def)
    have ml: "middle < length xs" using hl "1.prems"(2) by (simp add: middle_def)
    show ?thesis
    proof (cases "lt (xs ! middle) v")
      case True
      define R where "R = lower_bound_loop lt xs v (middle + 1) (len - half - 1)"
      have below: "\<forall>i<middle + 1. lt (xs ! i) v"
      proof (intro allI impI)
        fix i assume "i < middle + 1"
        then have "i \<le> middle \<and> middle < length xs \<and> lt (xs ! middle) v" using ml True by simp
        then show "lt (xs ! i) v" using part by blast
      qed
      have eq: "middle + 1 + (len - half - 1) = first + len"
        using hl by (simp add: middle_def)
      have p2: "middle + 1 + (len - half - 1) \<le> length xs"
        unfolding eq by (rule "1.prems"(2))
      have p4: "\<forall>i. middle + 1 + (len - half - 1) \<le> i \<and> i < length xs \<longrightarrow> \<not> lt (xs ! i) v"
        unfolding eq by (rule "1.prems"(4))
      note IH = "1.IH"(1) [OF False half_def middle_def True part p2 below p4, folded R_def]
      from IH have a: "middle + 1 \<le> R" and b: "R \<le> middle + 1 + (len - half - 1)"
        and c: "\<forall>i<R. lt (xs ! i) v"
        and d: "\<forall>i. R \<le> i \<and> i < length xs \<longrightarrow> \<not> lt (xs ! i) v"
        by blast+
      have step: "lower_bound_loop lt xs v first len = R"
        unfolding R_def using False True
        by (simp add: lower_bound_loop.simps [of lt xs v first len] Let_def half_def middle_def)
      have a': "first \<le> R" using a by (simp add: middle_def)
      have b': "R \<le> first + len" using b unfolding eq .
      show ?thesis unfolding step using a' b' c d by blast
    next
      case nless: False
      define R where "R = lower_bound_loop lt xs v first half"
      have above: "\<forall>i. first + half \<le> i \<and> i < length xs \<longrightarrow> \<not> lt (xs ! i) v"
      proof (intro allI impI)
        fix i assume a: "first + half \<le> i \<and> i < length xs"
        show "\<not> lt (xs ! i) v"
        proof
          assume "lt (xs ! i) v"
          with a have "middle \<le> i \<and> i < length xs \<and> lt (xs ! i) v" by (simp add: middle_def)
          then have "lt (xs ! middle) v" using part by blast
          with nless show False by simp
        qed
      qed
      have p2: "first + half \<le> length xs" using hl "1.prems"(2) by simp
      note IH = "1.IH"(2) [OF False half_def middle_def nless part p2 "1.prems"(3) above, folded R_def]
      from IH have a: "first \<le> R" and b: "R \<le> first + half"
        and c: "\<forall>i<R. lt (xs ! i) v"
        and d: "\<forall>i. R \<le> i \<and> i < length xs \<longrightarrow> \<not> lt (xs ! i) v"
        by blast+
      have step: "lower_bound_loop lt xs v first len = R"
        unfolding R_def using False nless
        by (simp add: lower_bound_loop.simps [of lt xs v first len] Let_def half_def middle_def)
      have b': "R \<le> first + len" using b hl by simp
      show ?thesis unfolding step using a b' c d by blast
    qed
  qed
qed

lemma lower_bound_partitioned:
  assumes "\<forall>i j. i \<le> j \<and> j < length xs \<and> lt (xs ! j) v \<longrightarrow> lt (xs ! i) v"
  shows "lower_bound lt xs v \<le> length xs
       \<and> (\<forall>i<lower_bound lt xs v. lt (xs ! i) v)
       \<and> (\<forall>i. lower_bound lt xs v \<le> i \<and> i < length xs \<longrightarrow> \<not> lt (xs ! i) v)"
proof -
  have a: "\<forall>i<(0::nat). lt (xs ! i) v" by simp
  have b: "\<forall>i. 0 + length xs \<le> i \<and> i < length xs \<longrightarrow> \<not> lt (xs ! i) v" by auto
  have c: "0 + length xs \<le> length xs" by simp
  have "lower_bound_loop lt xs v 0 (length xs) \<le> 0 + length xs
       \<and> (\<forall>i<lower_bound_loop lt xs v 0 (length xs). lt (xs ! i) v)
       \<and> (\<forall>i. lower_bound_loop lt xs v 0 (length xs) \<le> i \<and> i < length xs \<longrightarrow> \<not> lt (xs ! i) v)"
    using lower_bound_loop_spec [where lt = lt and xs = xs and v = v and first = 0 and len = "length xs",
        OF assms c a b]
    by blast
  then show ?thesis unfolding lower_bound_def by simp
qed


lemma lower_bound_swo:
  assumes swo: "strict_weak_order_on V lt eq"
    and d: "set d \<subseteq> V" "sorted_wrt lt d" and v: "v \<in> V"
    and rep: "\<exists>u\<in>set d. eq u v"
  shows "lower_bound lt d v < length d \<and> eq (d ! lower_bound lt d v) v"
proof -
  have part: "\<forall>i j. i \<le> j \<and> j < length d \<and> lt (d ! j) v \<longrightarrow> lt (d ! i) v"
  proof (intro allI impI)
    fix i j assume a: "i \<le> j \<and> j < length d \<and> lt (d ! j) v"
    show "lt (d ! i) v"
    proof (cases "i = j")
      case True
      with a show ?thesis by simp
    next
      case False
      with a have ij: "i < j" "j < length d" by simp_all
      then have "lt (d ! i) (d ! j)" using d(2) by (simp add: sorted_wrt_nth_less)
      moreover have "d ! i \<in> V" "d ! j \<in> V" using ij d(1) by (auto simp: subset_iff)
      ultimately show ?thesis using swo_trans [OF swo _ _ v] a by blast
    qed
  qed
  note sp = lower_bound_partitioned [where lt = lt and xs = d and v = v, OF part]
  define p where "p = lower_bound lt d v"
  from rep obtain k where k: "k < length d" "eq (d ! k) v" by (auto simp: in_set_conv_nth)
  have kV: "d ! k \<in> V" using k(1) d(1) by (auto simp: subset_iff)
  have nk: "\<not> lt (d ! k) v" "\<not> lt v (d ! k)" using swo_eq_iff [OF swo kV v] k(2) by simp_all
  have "\<not> k < p"
  proof
    assume "k < p"
    then have "lt (d ! k) v" using sp by (simp add: p_def)
    with nk show False by simp
  qed
  then have le: "p \<le> k" by simp
  have "p = k"
  proof (rule ccontr)
    assume "p \<noteq> k"
    with le have pk: "p < k" by simp
    then have pV: "d ! p \<in> V" using k(1) d(1) by (auto simp: subset_iff)
    have "lt (d ! p) (d ! k)" using pk k(1) d(2) by (simp add: sorted_wrt_nth_less)
    then have "lt (d ! p) v \<or> lt v (d ! k)" by (rule swo_negtrans [OF swo pV v kV])
    moreover have "\<not> lt (d ! p) v" using sp pk k(1) by (simp add: p_def)
    ultimately show False using nk by simp
  qed
  with k show ?thesis by (simp add: p_def)
qed

lemma distinct_remdups_adj_sorted: "sorted xs \<Longrightarrow> distinct (remdups_adj xs)"
proof (induction xs rule: remdups_adj.induct)
  case (3 x y xs)
  show ?case
  proof (cases "x = y")
    case True
    with 3 show ?thesis by simp
  next
    case False
    from "3.prems" have "\<forall>z\<in>set (y # xs). x \<le> z" and s: "sorted (y # xs)" by simp_all
    moreover from "3.prems" have "\<forall>z\<in>set xs. y \<le> z" by simp
    ultimately have "x \<notin> set (y # xs)" using False by auto
    with 3 False s show ?thesis by simp
  qed
qed simp_all
section \<open>Properties of the expression tree\<close>

lemma deep_copy_ident: "deep_copy e = e"
proof (induction e)
  case (Expression t v af tn al vp args l r)
  have "map deep_copy args = args"
    using Expression.IH(1) by (simp add: map_idI)
  moreover have "map_option deep_copy l = l"
    using Expression.IH(2) by (cases l) simp_all
  moreover have "map_option deep_copy r = r"
    using Expression.IH(3) by (cases r) simp_all
  ultimately show ?case by simp
qed

lemma optional_eq_refl: "reflp eq \<Longrightarrow> optional_eq eq a a"
  by (cases a) (auto simp: optional_eq_def reflp_def)

lemma optional_eq_sym: "symp eq \<Longrightarrow> optional_eq eq a b \<Longrightarrow> optional_eq eq b a"
  by (cases a; cases b) (auto simp: optional_eq_def symp_def)

lemma optional_eq_trans:
  "transp eq \<Longrightarrow> optional_eq eq a b \<Longrightarrow> optional_eq eq b c \<Longrightarrow> optional_eq eq a c"
  by (cases a; cases b; cases c) (auto simp: optional_eq_def transp_def)

lemma expr_eq_refl:
  assumes "reflp veq"
  shows "expr_eq veq e e"
proof (induction e)
  case (Expression t v af tn al vp args l r)
  have "list_all2 (expr_eq veq) args args"
    using Expression.IH(1) by (simp add: list.rel_refl_strong)
  moreover have "(case (l, l) of (Some x, Some y) \<Rightarrow> expr_eq veq x y | (None, None) \<Rightarrow> True | _ \<Rightarrow> False)"
    using Expression.IH(2) by (cases l) simp_all
  moreover have "(case (r, r) of (Some x, Some y) \<Rightarrow> expr_eq veq x y | (None, None) \<Rightarrow> True | _ \<Rightarrow> False)"
    using Expression.IH(3) by (cases r) simp_all
  ultimately show ?case
    using optional_eq_refl [OF assms] by simp
qed

lemma expr_eq_sym:
  assumes "symp veq"
  shows "expr_eq veq a b \<Longrightarrow> expr_eq veq b a"
proof (induction a arbitrary: b)
  case (Expression t v af tn al vp args l r)
  obtain t' v' af' tn' al' vp' args' l' r' where b: "b = Expression t' v' af' tn' al' vp' args' l' r'"
    by (cases b)
  from Expression.prems have
    L: "(case (l, l') of (Some x, Some y) \<Rightarrow> expr_eq veq x y | (None, None) \<Rightarrow> True | _ \<Rightarrow> False)" and
    R: "(case (r, r') of (Some x, Some y) \<Rightarrow> expr_eq veq x y | (None, None) \<Rightarrow> True | _ \<Rightarrow> False)" and
    A: "list_all2 (expr_eq veq) args args'" and
    S: "t = t'" "optional_eq veq v v'" "af = af'" "tn = tn'" "al = al'"
    unfolding b by (simp_all split: if_splits)
  have L': "(case (l', l) of (Some x, Some y) \<Rightarrow> expr_eq veq x y | (None, None) \<Rightarrow> True | _ \<Rightarrow> False)"
  proof (cases l)
    case None
    with L show ?thesis by (cases l') simp_all
  next
    case (Some x)
    with L obtain y where "l' = Some y" "expr_eq veq x y" by (cases l') simp_all
    with Some Expression.IH(2) [of x y] show ?thesis by simp
  qed
  have R': "(case (r', r) of (Some x, Some y) \<Rightarrow> expr_eq veq x y | (None, None) \<Rightarrow> True | _ \<Rightarrow> False)"
  proof (cases r)
    case None
    with R show ?thesis by (cases r') simp_all
  next
    case (Some x)
    with R obtain y where "r' = Some y" "expr_eq veq x y" by (cases r') simp_all
    with Some Expression.IH(3) [of x y] show ?thesis by simp
  qed
  have A': "list_all2 (expr_eq veq) args' args"
  proof (rule list_all2_all_nthI)
    show "length args' = length args" using A by (simp add: list_all2_lengthD)
  next
    fix n assume "n < length args'"
    then have n: "n < length args" using A by (simp add: list_all2_lengthD)
    then have "expr_eq veq (args ! n) (args' ! n)" using A by (simp add: list_all2_nthD)
    then show "expr_eq veq (args' ! n) (args ! n)"
      using Expression.IH(1) [of "args ! n" "args' ! n"] n by simp
  qed
  show ?case
    unfolding b using L' R' A' S optional_eq_sym [OF assms S(2)] list_all2_lengthD [OF A'] by simp
qed

lemma expr_eq_trans:
  assumes "transp veq"
  shows "expr_eq veq a b \<Longrightarrow> expr_eq veq b c \<Longrightarrow> expr_eq veq a c"
proof (induction a arbitrary: b c)
  case (Expression t v af tn al vp args l r)
  obtain t' v' af' tn' al' vp' args' l' r' where b: "b = Expression t' v' af' tn' al' vp' args' l' r'"
    by (cases b)
  obtain t'' v'' af'' tn'' al'' vp'' args'' l'' r'' where c: "c = Expression t'' v'' af'' tn'' al'' vp'' args'' l'' r''"
    by (cases c)
  from Expression.prems(1) have
    L1: "(case (l, l') of (Some x, Some y) \<Rightarrow> expr_eq veq x y | (None, None) \<Rightarrow> True | _ \<Rightarrow> False)" and
    R1: "(case (r, r') of (Some x, Some y) \<Rightarrow> expr_eq veq x y | (None, None) \<Rightarrow> True | _ \<Rightarrow> False)" and
    A1: "list_all2 (expr_eq veq) args args'" and
    S1: "t = t'" "optional_eq veq v v'" "af = af'" "tn = tn'" "al = al'"
    unfolding b by (simp_all split: if_splits)
  from Expression.prems(2) have
    L2: "(case (l', l'') of (Some x, Some y) \<Rightarrow> expr_eq veq x y | (None, None) \<Rightarrow> True | _ \<Rightarrow> False)" and
    R2: "(case (r', r'') of (Some x, Some y) \<Rightarrow> expr_eq veq x y | (None, None) \<Rightarrow> True | _ \<Rightarrow> False)" and
    A2: "list_all2 (expr_eq veq) args' args''" and
    S2: "t' = t''" "optional_eq veq v' v''" "af' = af''" "tn' = tn''" "al' = al''"
    unfolding b c by (simp_all split: if_splits)
  have L: "(case (l, l'') of (Some x, Some y) \<Rightarrow> expr_eq veq x y | (None, None) \<Rightarrow> True | _ \<Rightarrow> False)"
  proof (cases l)
    case None
    with L1 have "l' = None" by (cases l') simp_all
    with L2 None show ?thesis by (cases l'') simp_all
  next
    case (Some x)
    with L1 obtain y where y: "l' = Some y" "expr_eq veq x y" by (cases l') simp_all
    with L2 obtain z where z: "l'' = Some z" "expr_eq veq y z" by (cases l'') simp_all
    with Some y Expression.IH(2) [of x y z] show ?thesis by simp
  qed
  have R: "(case (r, r'') of (Some x, Some y) \<Rightarrow> expr_eq veq x y | (None, None) \<Rightarrow> True | _ \<Rightarrow> False)"
  proof (cases r)
    case None
    with R1 have "r' = None" by (cases r') simp_all
    with R2 None show ?thesis by (cases r'') simp_all
  next
    case (Some x)
    with R1 obtain y where y: "r' = Some y" "expr_eq veq x y" by (cases r') simp_all
    with R2 obtain z where z: "r'' = Some z" "expr_eq veq y z" by (cases r'') simp_all
    with Some y Expression.IH(3) [of x y z] show ?thesis by simp
  qed
  have A: "list_all2 (expr_eq veq) args args''"
  proof (rule list_all2_all_nthI)
    show "length args = length args''" using A1 A2 by (simp add: list_all2_lengthD)
  next
    fix n assume n: "n < length args"
    then have n': "n < length args'" using A1 by (simp add: list_all2_lengthD)
    have "expr_eq veq (args ! n) (args' ! n)" using A1 n by (simp add: list_all2_nthD)
    moreover have "expr_eq veq (args' ! n) (args'' ! n)" using A2 n' by (simp add: list_all2_nthD)
    ultimately show "expr_eq veq (args ! n) (args'' ! n)"
      using Expression.IH(1) [of "args ! n" "args' ! n" "args'' ! n"] n by simp
  qed
  show ?case
    unfolding c using L R A S1 S2 optional_eq_trans [OF assms S1(2) S2(2)] list_all2_lengthD [OF A] by simp
qed

lemma expr_eq_create_literal:
  "expr_eq veq (create_literal v a) (create_literal w b) \<longleftrightarrow> veq v w \<and> a = b"
  by (simp add: create_literal_def optional_eq_def)

lemma expr_eq_self_iff: "expr_eq veq e e \<longleftrightarrow> (\<forall>v\<in>set_expression e. veq v v)"
proof (induction e)
  case (Expression t v af tn al vp args l r)
  have A: "list_all2 (expr_eq veq) args args \<longleftrightarrow> (\<forall>a\<in>set args. \<forall>v\<in>set_expression a. veq v v)"
    using Expression.IH(1) by (simp add: list_all2_same)
  have L: "(case (l, l) of (Some x, Some y) \<Rightarrow> expr_eq veq x y | (None, None) \<Rightarrow> True | _ \<Rightarrow> False)
        \<longleftrightarrow> (\<forall>a\<in>set_option l. \<forall>v\<in>set_expression a. veq v v)"
    using Expression.IH(2) by (cases l) simp_all
  have R: "(case (r, r) of (Some x, Some y) \<Rightarrow> expr_eq veq x y | (None, None) \<Rightarrow> True | _ \<Rightarrow> False)
        \<longleftrightarrow> (\<forall>a\<in>set_option r. \<forall>v\<in>set_expression a. veq v v)"
    using Expression.IH(3) by (cases r) simp_all
  have V: "optional_eq veq v v \<longleftrightarrow> (\<forall>x\<in>set_option v. veq x x)"
    by (cases v) (simp_all add: optional_eq_def)
  have "expr_eq veq (Expression t v af tn al vp args l r) (Expression t v af tn al vp args l r)
      \<longleftrightarrow> (case (l, l) of (Some x, Some y) \<Rightarrow> expr_eq veq x y | (None, None) \<Rightarrow> True | _ \<Rightarrow> False)
        \<and> (case (r, r) of (Some x, Some y) \<Rightarrow> expr_eq veq x y | (None, None) \<Rightarrow> True | _ \<Rightarrow> False)
        \<and> list_all2 (expr_eq veq) args args \<and> optional_eq veq v v"
    by simp
  also have "\<dots> \<longleftrightarrow> (\<forall>x\<in>set_expression (Expression t v af tn al vp args l r). veq x x)"
    unfolding A L R V by auto
  finally show ?case .
qed

lemma symp_float_eq: "symp float_eq"
proof (rule sympI)
  fix x y assume "float_eq x y"
  then show "float_eq y x" by (cases x; cases y) simp_all
qed

lemma transp_float_eq: "transp float_eq"
proof (rule transpI)
  fix x y z assume "float_eq x y" "float_eq y z"
  then show "float_eq x z" by (cases x; cases y; cases z) simp_all
qed
section \<open>Claims about the expression tree\<close>

text \<open>
  A literal that holds the floating-point value NaN. On two floating-point values
  \<^verbatim>\<open>operator==\<close> of \<^verbatim>\<open>AllTypeVariant\<close> is \<^verbatim>\<open>==\<close> of the element type, which NaN does not
  satisfy against itself: the literal is \<^verbatim>\<open>==\<close> neither to its deep copy nor to itself,
  although the copy has the same fields.
\<close>

theorem nan_literal_counterexample:
  "deep_copy (create_literal NaN None) = create_literal NaN None
   \<and> \<not> expr_eq float_eq (deep_copy (create_literal NaN None)) (create_literal NaN None)
   \<and> \<not> expr_eq float_eq (create_literal NaN None) (create_literal NaN None)"
  by (simp add: create_literal_def optional_eq_def)

text \<open>
  Claim C9, as the code has it. \<^verbatim>\<open>deep_copy\<close> returns a tree with the same type, value,
  aggregate function, table name, alias, placeholder, arguments and children at every
  node: the copy is the same term as the original. Under \<^verbatim>\<open>operator==\<close> the copy is equal
  to the original, and an expression equal to itself, exactly when every value held in
  the tree is \<^verbatim>\<open>==\<close> to itself, which fails for a floating-point NaN. \<^verbatim>\<open>operator==\<close> is
  symmetric and transitive whenever the comparison of the values is; that comparison
  belongs to \<^verbatim>\<open>AllTypeVariant\<close>, which is declared outside the files at hand.
\<close>

theorem deep_copy_same_fields_and_eq_properties:
  assumes "symp veq" "transp veq"
  shows "deep_copy e = e
       \<and> (expr_eq veq (deep_copy e) e \<longleftrightarrow> (\<forall>v\<in>set_expression e. veq v v))
       \<and> (expr_eq veq e e \<longleftrightarrow> (\<forall>v\<in>set_expression e. veq v v))
       \<and> (expr_eq veq a b \<longrightarrow> expr_eq veq b a)
       \<and> (expr_eq veq a b \<and> expr_eq veq b c \<longrightarrow> expr_eq veq a c)"
proof -
  have 1: "deep_copy e = e" by (rule deep_copy_ident)
  have 2: "expr_eq veq e e \<longleftrightarrow> (\<forall>v\<in>set_expression e. veq v v)" by (rule expr_eq_self_iff)
  have 3: "expr_eq veq a b \<longrightarrow> expr_eq veq b a"
    using expr_eq_sym [OF assms(1), of a b] by blast
  have 4: "expr_eq veq a b \<and> expr_eq veq b c \<longrightarrow> expr_eq veq a c"
    using expr_eq_trans [OF assms(2), of a b c] by blast
  show ?thesis unfolding 1 using 2 3 4 by blast
qed

text \<open>
  With \<^verbatim>\<open>==\<close> of the floating-point values, which is symmetric and transitive: the
  aggregate \<^verbatim>\<open>SUM\<close> over the literal 5 is equal to its copy, and the same aggregate over
  NaN is not equal to itself.
\<close>

theorem deep_copy_same_fields_and_eq_properties_witness:
  "symp float_eq \<and> transp float_eq
   \<and> deep_copy (create_aggregate_function Sum' [create_literal (Number 5) (Some ''x'')] None)
       = create_aggregate_function Sum' [create_literal (Number 5) (Some ''x'')] None
   \<and> expr_eq float_eq (deep_copy (create_aggregate_function Sum' [create_literal (Number 5) (Some ''x'')] None))
        (create_aggregate_function Sum' [create_literal (Number 5) (Some ''x'')] None)
   \<and> expr_eq float_eq (create_literal (Number 5) None) (create_literal (Number 5) None)
   \<and> \<not> expr_eq float_eq (create_literal (Number 5) None) (create_literal (Number 6) None)
   \<and> \<not> expr_eq float_eq (create_aggregate_function Sum' [create_literal NaN (Some ''x'')] None)
          (create_aggregate_function Sum' [create_literal NaN (Some ''x'')] None)"
proof -
  let ?e = "create_aggregate_function Sum' [create_literal (Number 5) (Some ''x'')] None"
  let ?n = "create_aggregate_function Sum' [create_literal NaN (Some ''x'')] None"
  have ne: "\<not> expr_eq float_eq (create_literal (Number 5) None) (create_literal (Number 6) None)"
    by (simp add: create_literal_def optional_eq_def)
  have eq: "expr_eq float_eq (create_literal (Number 5) None) (create_literal (Number 5) None)"
    by (simp add: create_literal_def optional_eq_def)
  have ve: "\<forall>v\<in>set_expression ?e. float_eq v v"
    by (simp add: create_aggregate_function_def create_literal_def)
  have vn: "\<not> (\<forall>v\<in>set_expression ?n. float_eq v v)"
    by (simp add: create_aggregate_function_def create_literal_def)
  from deep_copy_same_fields_and_eq_properties [OF symp_float_eq transp_float_eq, of ?e] ve
  have e: "deep_copy ?e = ?e" "expr_eq float_eq (deep_copy ?e) ?e" by blast+
  from deep_copy_same_fields_and_eq_properties [OF symp_float_eq transp_float_eq, of ?n] vn
  have n: "\<not> expr_eq float_eq ?n ?n" by blast
  from e n ne eq symp_float_eq transp_float_eq show ?thesis by blast
qed

text \<open>
  Claim C10. \<^verbatim>\<open>operator==\<close> never reads \<^verbatim>\<open>_value_placeholder\<close>: replacing the
  placeholder of either operand leaves the result unchanged, two placeholder expressions
  with different indices compare equal, and yet \<^verbatim>\<open>deep_copy\<close> carries the placeholder
  index over.
\<close>

theorem expr_eq_ignores_value_placeholder:
  "expr_eq veq (Expression t v af tn al p args l r) (Expression t' v' af' tn' al' q args' l' r')
     = expr_eq veq (Expression t v af tn al vp args l r) (Expression t' v' af' tn' al' vp' args' l' r')
   \<and> expr_eq veq (create_value_placeholder p1) (create_value_placeholder p2)
   \<and> e_value_placeholder (deep_copy (create_value_placeholder p1 :: 'v expression)) = Some p1
   \<and> e_type (create_value_placeholder p1 :: 'v expression) = Placeholder"
  by (simp add: create_value_placeholder_def optional_eq_def)

section \<open>Properties of the storage layer\<close>

lemma length_swap_nulls_to_back:
  "length (fst (swap_nulls_to_back null_it k d e)) = length d"
  by (induction k arbitrary: null_it d e) simp_all

lemma swap_nulls_to_back_inv:
  assumes "k \<le> e" "e \<le> length d" "k \<le> length nulls"
  shows "case swap_nulls_to_back (rev (take k nulls)) k d e of (d', e') \<Rightarrow>
           e' \<le> length d' \<and> length d' = length d \<and>
           {d' ! i | i. i < e'} = {d ! i | i. i < k \<and> \<not> nulls ! i} \<union> {d ! j | j. k \<le> j \<and> j < e}"
  using assms
proof (induction k arbitrary: d e)
  case 0
  then show ?case by auto
next
  case (Suc k)
  have kl: "k < length nulls" "k \<le> length nulls" using Suc.prems(3) by simp_all
  have unf: "swap_nulls_to_back (rev (take (Suc k) nulls)) (Suc k) d e =
      (if nulls ! k then
         swap_nulls_to_back (rev (take k nulls)) k (d[k := d ! (e - 1), e - 1 := d ! k]) (e - 1)
       else swap_nulls_to_back (rev (take k nulls)) k d e)"
    using kl(1) by (simp add: take_Suc_conv_app_nth)
  show ?case
  proof (cases "nulls ! k")
    case False
    have "{d ! i | i. i < k \<and> \<not> nulls ! i} \<union> {d ! j | j. k \<le> j \<and> j < e}
        = {d ! i | i. i < Suc k \<and> \<not> nulls ! i} \<union> {d ! j | j. Suc k \<le> j \<and> j < e}"
      (is "?A = ?B")
    proof
      show "?A \<subseteq> ?B"
      proof
        fix x assume "x \<in> ?A"
        then consider i where "x = d ! i" "i < k" "\<not> nulls ! i" | j where "x = d ! j" "k \<le> j" "j < e"
          by blast
        then show "x \<in> ?B"
        proof cases
          case 1
          then have "i < Suc k" by simp
          with 1 show ?thesis by blast
        next
          case 2
          show ?thesis
          proof (cases "j = k")
            case True
            with 2 False have "x = d ! k \<and> k < Suc k \<and> \<not> nulls ! k" by simp
            then show ?thesis by blast
          next
            case False
            with 2 have "Suc k \<le> j" by simp
            with 2 show ?thesis by blast
          qed
        qed
      qed
    next
      show "?B \<subseteq> ?A"
      proof
        fix x assume "x \<in> ?B"
        then consider i where "x = d ! i" "i < Suc k" "\<not> nulls ! i" | j where "x = d ! j" "Suc k \<le> j" "j < e"
          by blast
        then show "x \<in> ?A"
        proof cases
          case 1
          show ?thesis
          proof (cases "i = k")
            case True
            with 1 Suc.prems have "x = d ! k \<and> k \<le> k \<and> k < e" by simp
            then show ?thesis by blast
          next
            case False
            with 1 have "i < k" by simp
            with 1 show ?thesis by blast
          qed
        next
          case 2
          then have "k \<le> j" by simp
          with 2 show ?thesis by blast
        qed
      qed
    qed
    moreover have "k \<le> e" using Suc.prems by simp
    ultimately show ?thesis
      unfolding unf using Suc.IH [of e d] Suc.prems(2) kl(2) False by simp
  next
    case True
    define d2 where "d2 = d[k := d ! (e - 1), e - 1 := d ! k]"
    have ke: "k \<le> e - 1" and e1: "e - 1 < length d" and ld2: "length d2 = length d"
      using Suc.prems by (simp_all add: d2_def)
    have low: "\<And>i. i < k \<Longrightarrow> d2 ! i = d ! i"
      using ke by (simp add: d2_def)
    have mid: "\<And>j. k < j \<Longrightarrow> j < e - 1 \<Longrightarrow> d2 ! j = d ! j"
      by (simp add: d2_def)
    have atk: "k < e - 1 \<Longrightarrow> d2 ! k = d ! (e - 1)"
      using e1 by (simp add: d2_def)
    have "{d2 ! i | i. i < k \<and> \<not> nulls ! i} \<union> {d2 ! j | j. k \<le> j \<and> j < e - 1}
        = {d ! i | i. i < Suc k \<and> \<not> nulls ! i} \<union> {d ! j | j. Suc k \<le> j \<and> j < e}"
      (is "?A = ?B")
    proof
      show "?A \<subseteq> ?B"
      proof
        fix x assume "x \<in> ?A"
        then consider i where "x = d2 ! i" "i < k" "\<not> nulls ! i" | j where "x = d2 ! j" "k \<le> j" "j < e - 1"
          by blast
        then show "x \<in> ?B"
        proof cases
          case 1
          then have "x = d ! i \<and> i < Suc k \<and> \<not> nulls ! i" using low by simp
          then show ?thesis by blast
        next
          case 2
          show ?thesis
          proof (cases "j = k")
            case True
            with 2 atk have "x = d ! (e - 1) \<and> Suc k \<le> e - 1 \<and> e - 1 < e" by simp
            then show ?thesis by blast
          next
            case False
            with 2 mid have "x = d ! j \<and> Suc k \<le> j \<and> j < e" by simp
            then show ?thesis by blast
          qed
        qed
      qed
    next
      show "?B \<subseteq> ?A"
      proof
        fix x assume "x \<in> ?B"
        then consider i where "x = d ! i" "i < Suc k" "\<not> nulls ! i" | j where "x = d ! j" "Suc k \<le> j" "j < e"
          by blast
        then show "x \<in> ?A"
        proof cases
          case 1
          with True have "i < k" by (cases "i = k") simp_all
          with 1 low have "x = d2 ! i \<and> i < k \<and> \<not> nulls ! i" by simp
          then show ?thesis by blast
        next
          case 2
          show ?thesis
          proof (cases "j = e - 1")
            case True
            with 2 atk have "x = d2 ! k \<and> k \<le> k \<and> k < e - 1" by simp
            then show ?thesis by blast
          next
            case False
            with 2 mid have "x = d2 ! j \<and> k \<le> j \<and> j < e - 1" by simp
            then show ?thesis by blast
          qed
        qed
      qed
    qed
    then show ?thesis
      unfolding unf using Suc.IH [of "e - 1" d2] ke e1 ld2 kl(2) True by (simp add: d2_def)
  qed
qed

lemma ucast_8_32_id:
  assumes "unat (w :: 32 word) < 256"
  shows "(ucast (ucast w :: 8 word) :: 32 word) = w"
proof (rule word_unat_eq_iff [THEN iffD2])
  have "take_bit 8 (unat w) = unat w"
    using assms by (simp add: take_bit_nat_eq_self)
  then show "unat (ucast (ucast w :: 8 word) :: 32 word) = unat w"
    by (simp add: unsigned_ucast_eq unsigned_take_bit_eq)
qed

lemma ucast_16_32_id:
  assumes "unat (w :: 32 word) < 65536"
  shows "(ucast (ucast w :: 16 word) :: 32 word) = w"
proof (rule word_unat_eq_iff [THEN iffD2])
  have "take_bit 16 (unat w) = unat w"
    using assms by (simp add: take_bit_nat_eq_self)
  then show "unat (ucast (ucast w :: 16 word) :: 32 word) = unat w"
    by (simp add: unsigned_ucast_eq unsigned_take_bit_eq)
qed

lemma unat_of_nat_32: "n < 2 ^ 32 \<Longrightarrow> unat (of_nat n :: 32 word) = n"
  by (simp add: unat_of_nat)

lemma erased_nulls_set:
  assumes wf: "null_values c = Some nulls" "length nulls = length (vc_values c)"
    and sw: "swap_nulls_to_back (rev nulls) (length (vc_values c)) (vc_values c) (length (vc_values c)) = (d', e')"
  shows "set (take e' d') = non_null_values c"
proof -
  have tk: "rev nulls = rev (take (length (vc_values c)) nulls)" using wf(2) by simp
  have inv: "e' \<le> length d' \<and> length d' = length (vc_values c) \<and>
        {d' ! i | i. i < e'} = {vc_values c ! i | i. i < length (vc_values c) \<and> \<not> nulls ! i}
           \<union> {vc_values c ! j | j. length (vc_values c) \<le> j \<and> j < length (vc_values c)}"
    using swap_nulls_to_back_inv [of "length (vc_values c)" "length (vc_values c)" "vc_values c" nulls]
      sw wf(2) unfolding tk [symmetric] by simp
  have "{vc_values c ! j | j. length (vc_values c) \<le> j \<and> j < length (vc_values c)} = {}" by auto
  with inv have e: "e' \<le> length d'" and
    s: "{d' ! i | i. i < e'} = {vc_values c ! i | i. i < length (vc_values c) \<and> \<not> nulls ! i}"
    by simp_all
  have "set (take e' d') = (!) d' ` {0..<e'}" using e by (simp add: nth_image)
  also have "\<dots> = {d' ! i | i. i < e'}" by auto
  finally show ?thesis
    using s wf(1) by (simp add: non_null_values_def row_is_null_def)
qed

lemma non_null_values_not_nullable:
  "null_values c = None \<Longrightarrow> non_null_values c = set (vc_values c)"
  by (simp add: non_null_values_def row_is_null_def set_conv_nth)

lemma build_dictionary_length: "length (build_dictionary lt eq c) \<le> length (vc_values c)"
proof (cases "null_values c")
  case None
  have "length (std_unique eq (std_sort lt (vc_values c))) \<le> length (std_sort lt (vc_values c))"
    by (rule length_std_unique)
  with None show ?thesis by (simp add: build_dictionary_def length_std_sort)
next
  case (Some nulls)
  obtain d' e' where sw: "swap_nulls_to_back (rev nulls) (length (vc_values c)) (vc_values c) (length (vc_values c)) = (d', e')"
    by (cases "swap_nulls_to_back (rev nulls) (length (vc_values c)) (vc_values c) (length (vc_values c))")
  have "length d' = length (vc_values c)"
    using length_swap_nulls_to_back [of "rev nulls" "length (vc_values c)" "vc_values c" "length (vc_values c)"] sw
    by simp
  moreover have "length (std_unique eq (std_sort lt (take e' d'))) \<le> length (std_sort lt (take e' d'))"
    by (rule length_std_unique)
  ultimately show ?thesis using Some sw by (simp add: build_dictionary_def length_std_sort)
qed

lemma build_dictionary_eq:
  assumes wf: "case null_values c of None \<Rightarrow> True | Some nulls \<Rightarrow> length nulls = length (vc_values c)"
  shows "\<exists>xs. set xs = non_null_values c \<and> build_dictionary lt eq c = std_unique eq (std_sort lt xs)"
proof (cases "null_values c")
  case None
  then have "set (vc_values c) = non_null_values c
      \<and> build_dictionary lt eq c = std_unique eq (std_sort lt (vc_values c))"
    by (simp add: build_dictionary_def non_null_values_not_nullable)
  then show ?thesis by (rule exI)
next
  case (Some nulls)
  obtain d' e' where sw: "swap_nulls_to_back (rev nulls) (length (vc_values c)) (vc_values c) (length (vc_values c)) = (d', e')"
    by (cases "swap_nulls_to_back (rev nulls) (length (vc_values c)) (vc_values c) (length (vc_values c))")
  have len: "length nulls = length (vc_values c)" using wf Some by simp
  have "set (take e' d') = non_null_values c" by (rule erased_nulls_set [OF Some len sw])
  moreover have "build_dictionary lt eq c = std_unique eq (std_sort lt (take e' d'))"
    using Some sw by (simp add: build_dictionary_def)
  ultimately have "set (take e' d') = non_null_values c
      \<and> build_dictionary lt eq c = std_unique eq (std_sort lt (take e' d'))" by simp
  then show ?thesis by (rule exI)
qed

lemma build_dictionary_swo:
  assumes wf: "case null_values c of None \<Rightarrow> True | Some nulls \<Rightarrow> length nulls = length (vc_values c)"
    and swo: "strict_weak_order_on (non_null_values c) lt eq"
  shows "sorted_wrt lt (build_dictionary lt eq c)
       \<and> set (build_dictionary lt eq c) \<subseteq> non_null_values c
       \<and> (\<forall>v\<in>non_null_values c. \<exists>u\<in>set (build_dictionary lt eq c). eq u v)"
proof -
  from build_dictionary_eq [OF wf, of lt eq] obtain xs where
    xs: "set xs = non_null_values c" and bd: "build_dictionary lt eq c = std_unique eq (std_sort lt xs)"
    by blast
  have sub: "set (std_sort lt xs) \<subseteq> non_null_values c" using xs by (simp add: set_std_sort)
  have srt: "sorted_wrt (\<lambda>a b. \<not> lt b a) (std_sort lt xs)"
    by (rule sorted_std_sort_swo [OF swo]) (simp add: xs)
  note u = std_unique_swo [OF swo sub srt]
  have "set (std_unique eq (std_sort lt xs)) \<subseteq> non_null_values c"
    using set_std_unique [of eq "std_sort lt xs"] sub by blast
  moreover have "\<forall>v\<in>non_null_values c. \<exists>u\<in>set (std_unique eq (std_sort lt xs)). eq u v"
    using u xs by (simp add: set_std_sort)
  ultimately show ?thesis unfolding bd using u by blast
qed

lemma sorted_wrt_distinct_swo:
  assumes swo: "strict_weak_order_on V lt eq" and d: "set d \<subseteq> V" "sorted_wrt lt d"
  shows "distinct d \<and> sorted_wrt (\<lambda>x y. lt x y \<and> \<not> eq x y) d"
proof -
  have "\<And>x y. x \<in> set d \<Longrightarrow> y \<in> set d \<Longrightarrow> lt x y \<Longrightarrow> x \<noteq> y \<and> \<not> eq x y"
  proof -
    fix x y assume a: "x \<in> set d" "y \<in> set d" "lt x y"
    then have V: "x \<in> V" "y \<in> V" using d(1) by blast+
    have "x \<noteq> y" using a(3) swo_irrefl [OF swo V(1)] by blast
    moreover have "\<not> eq x y" using swo_eq_iff [OF swo V] a(3) by simp
    ultimately show "x \<noteq> y \<and> \<not> eq x y" by simp
  qed
  then have m: "\<And>x y. x \<in> set d \<Longrightarrow> y \<in> set d \<Longrightarrow> lt x y \<Longrightarrow> x \<noteq> y"
    and n: "\<And>x y. x \<in> set d \<Longrightarrow> y \<in> set d \<Longrightarrow> lt x y \<Longrightarrow> lt x y \<and> \<not> eq x y"
    by blast+
  have "sorted_wrt (\<noteq>) d" using d(2) m by (rule sorted_wrt_mono_rel [rotated])
  then have ne: "\<And>i j. i < j \<Longrightarrow> j < length d \<Longrightarrow> d ! i \<noteq> d ! j"
    by (simp add: sorted_wrt_iff_nth_less)
  have "distinct d"
    unfolding distinct_conv_nth
  proof (intro allI impI)
    fix i j assume a: "i < length d" "j < length d" "i \<noteq> j"
    show "d ! i \<noteq> d ! j"
    proof (cases "i < j")
      case True
      then show ?thesis using ne a(2) by simp
    next
      case False
      with a(3) have "j < i" by simp
      then have "d ! j \<noteq> d ! i" using ne a(1) by simp
      then show ?thesis by simp
    qed
  qed
  moreover have "sorted_wrt (\<lambda>x y. lt x y \<and> \<not> eq x y) d"
    using d(2) n by (rule sorted_wrt_mono_rel [rotated])
  ultimately show ?thesis by simp
qed

lemma zs_get_encode_by_zs_type:
  assumes "i < length attr" "unat (attr ! i) \<le> n" "n < 2 ^ 32"
  shows "zs_get (encode_by_zs_type (get_fixed_size_byte_aligned_encoding (n + 1)) attr) i = attr ! i"
proof (cases "n + 1 \<le> 255")
  case True
  then have "unat (attr ! i) < 256" using assms(2) by simp
  then show ?thesis
    using True assms(1)
    by (simp add: get_fixed_size_byte_aligned_encoding_def encode_by_zs_type_def zs_get_def ucast_8_32_id)
next
  case False
  show ?thesis
  proof (cases "n + 1 \<le> 65535")
    case True
    then have "unat (attr ! i) < 65536" using assms(2) by simp
    then show ?thesis
      using True False assms(1)
      by (simp add: get_fixed_size_byte_aligned_encoding_def encode_by_zs_type_def zs_get_def ucast_16_32_id)
  next
    case F2: False
    then show ?thesis
      using False
      by (simp add: get_fixed_size_byte_aligned_encoding_def encode_by_zs_type_def zs_get_def)
  qed
qed

lemma encode_dictionary: "dictionary (encode lt eq c) = build_dictionary lt eq c"
  by (simp add: encode_def Let_def)

lemma encode_null_value_id:
  "null_value_id (encode lt eq c) = of_nat (length (build_dictionary lt eq c))"
  by (simp add: encode_def Let_def)

lemma encode_attribute_vector:
  "attribute_vector (encode lt eq c) =
     encode_by_zs_type (get_fixed_size_byte_aligned_encoding (length (build_dictionary lt eq c) + 1))
       (build_attribute_vector lt c (build_dictionary lt eq c) (of_nat (length (build_dictionary lt eq c))))"
  by (simp add: encode_def Let_def build_attribute_vector_def)

lemma build_attribute_vector_length:
  "length (build_attribute_vector lt c dict nid) = length (vc_values c)"
  by (simp add: build_attribute_vector_def split: option.splits)

lemma build_attribute_vector_nth:
  assumes "i < length (vc_values c)"
  shows "build_attribute_vector lt c dict nid ! i =
           (if row_is_null c i then nid else get_value_id lt dict (vc_values c ! i))"
  using assms by (simp add: build_attribute_vector_def row_is_null_def split: option.splits)

lemma encode_zs_type:
  "zs_type_of (attribute_vector (encode lt eq c)) =
     get_fixed_size_byte_aligned_encoding (length (dictionary (encode lt eq c)) + 1)"
  by (simp add: encode_def Let_def encode_by_zs_type_def zs_type_of_def split: ZsType.splits)


lemma float_numbers_strict_weak_order:
  "strict_weak_order_on (range Number) float_less float_eq"
  unfolding strict_weak_order_on_def by auto

lemma strict_weak_order_on_subset:
  "strict_weak_order_on W lt eq \<Longrightarrow> V \<subseteq> W \<Longrightarrow> strict_weak_order_on V lt eq"
  unfolding strict_weak_order_on_def by blast
section \<open>Claims about the storage layer\<close>

text \<open>
  A column of the element type Float that holds NaN in two rows, neither of them NULL:
  the sort leaves the two entries where they are, \<^verbatim>\<open>std::unique\<close> keeps both because NaN
  is not \<^verbatim>\<open>==\<close> to NaN, and \<^verbatim>\<open>std::lower_bound\<close> answers 0 for both rows. The dictionary
  holds the same value twice, and the entry found for row 0 is not \<^verbatim>\<open>==\<close> to the value of
  row 0.
\<close>

theorem dictionary_encoding_nan_counterexample:
  "dictionary (encode float_less float_eq \<lparr> vc_values = [NaN, NaN], null_values = None \<rparr>) = [NaN, NaN]
   \<and> map (zs_get (attribute_vector
              (encode float_less float_eq \<lparr> vc_values = [NaN, NaN], null_values = None \<rparr>))) [0, 1]
       = [0, 0]
   \<and> \<not> row_is_null \<lparr> vc_values = [NaN, NaN], null_values = None \<rparr> 0
   \<and> \<not> float_eq
         (dictionary (encode float_less float_eq \<lparr> vc_values = [NaN, NaN], null_values = None \<rparr>)
            ! unat (zs_get (attribute_vector
                 (encode float_less float_eq \<lparr> vc_values = [NaN, NaN], null_values = None \<rparr>)) 0))
         (vc_values \<lparr> vc_values = [NaN, NaN], null_values = None \<rparr> ! 0)
   \<and> \<not> distinct (dictionary (encode float_less float_eq \<lparr> vc_values = [NaN, NaN], null_values = None \<rparr>))"
proof -
  let ?c = "\<lparr> vc_values = [NaN, NaN], null_values = None \<rparr>"
  have d: "build_dictionary float_less float_eq ?c = [NaN, NaN]"
    by (simp add: build_dictionary_def std_sort_def)
  have l0: "lower_bound float_less [NaN, NaN] NaN = 0"
    by (simp add: lower_bound_def lower_bound_loop.simps [of float_less "[NaN, NaN]" NaN 0] Let_def)
  have a: "build_attribute_vector float_less ?c [NaN, NaN] 2 = [0, 0]"
    by (simp add: build_attribute_vector_def get_value_id_def l0)
  have e: "encode float_less float_eq ?c
      = \<lparr> dictionary = [NaN, NaN], attribute_vector = FixedSize1 [0, 0], null_value_id = 2 \<rparr>"
    by (simp add: encode_def Let_def d a get_fixed_size_byte_aligned_encoding_def encode_by_zs_type_def)
  show ?thesis
    unfolding e by (simp add: zs_get_def row_is_null_def)
qed

text \<open>
  Claim C2, as the code has it. Let the values of the rows that are not NULL be ordered
  by \<^verbatim>\<open><\<close> of the element type as a strict weak ordering, with \<^verbatim>\<open>==\<close> holding of exactly
  the values that \<^verbatim>\<open><\<close> does not separate (every integer and string column; a
  floating-point column unless a row that is not NULL holds NaN). Let the column have
  fewer than \<open>2\<^sup>3\<^sup>2\<close> rows (row offsets are 32-bit) and, when it is nullable, one NULL flag
  per row. After dictionary encoding the dictionary is strictly ascending, so it is sorted
  and holds no two entries that are the same or \<^verbatim>\<open>==\<close>; its entries are values of rows that
  are not NULL; the null value id is the dictionary size; and for every row \<open>i\<close>: a NULL
  row reads back the null value id from the compressed attribute vector, any other row
  reads back an index whose dictionary entry is \<^verbatim>\<open>==\<close> to the row's value.
\<close>

theorem dictionary_encoding_round_trip:
  assumes wf: "case null_values c of None \<Rightarrow> True | Some nulls \<Rightarrow> length nulls = length (vc_values c)"
    and sz: "length (vc_values c) < 2 ^ 32"
    and swo: "strict_weak_order_on (non_null_values c) lt eq"
    and i: "i < length (vc_values c)"
  shows "sorted_wrt (\<lambda>x y. lt x y \<and> \<not> eq x y) (dictionary (encode lt eq c))
       \<and> distinct (dictionary (encode lt eq c))
       \<and> set (dictionary (encode lt eq c)) \<subseteq> non_null_values c
       \<and> unat (null_value_id (encode lt eq c)) = length (dictionary (encode lt eq c))
       \<and> (if row_is_null c i
          then zs_get (attribute_vector (encode lt eq c)) i = null_value_id (encode lt eq c)
          else unat (zs_get (attribute_vector (encode lt eq c)) i) < length (dictionary (encode lt eq c))
             \<and> eq (dictionary (encode lt eq c) ! unat (zs_get (attribute_vector (encode lt eq c)) i))
                  (vc_values c ! i))"
proof -
  define dict where "dict = build_dictionary lt eq c"
  define attr where "attr = build_attribute_vector lt c dict (of_nat (length dict))"
  have len: "length dict < 2 ^ 32"
    using build_dictionary_length [of lt eq c] sz by (simp add: dict_def)
  have nid: "unat (of_nat (length dict) :: 32 word) = length dict"
    using len by (rule unat_of_nat_32)
  from build_dictionary_swo [OF wf swo] have
    srt: "sorted_wrt lt dict" and sub: "set dict \<subseteq> non_null_values c" and
    rep: "\<forall>v\<in>non_null_values c. \<exists>u\<in>set dict. eq u v"
    unfolding dict_def by blast+
  from sorted_wrt_distinct_swo [OF swo sub srt] have
    dis: "distinct dict" and strict: "sorted_wrt (\<lambda>x y. lt x y \<and> \<not> eq x y) dict"
    by blast+
  have at_null: "row_is_null c i \<Longrightarrow> attr ! i = of_nat (length dict)"
    using i by (simp add: attr_def build_attribute_vector_nth)
  have at_value: "\<not> row_is_null c i \<Longrightarrow> attr ! i = of_nat (lower_bound lt dict (vc_values c ! i))"
    using i by (simp add: attr_def build_attribute_vector_nth get_value_id_def)
  have found: "\<not> row_is_null c i \<Longrightarrow>
      lower_bound lt dict (vc_values c ! i) < length dict
      \<and> eq (dict ! lower_bound lt dict (vc_values c ! i)) (vc_values c ! i)"
  proof -
    assume nn: "\<not> row_is_null c i"
    have v: "vc_values c ! i \<in> non_null_values c"
      unfolding non_null_values_def using i nn by blast
    with rep have "\<exists>u\<in>set dict. eq u (vc_values c ! i)" by blast
    then show ?thesis by (rule lower_bound_swo [OF swo sub srt v])
  qed
  have value_id: "\<not> row_is_null c i \<Longrightarrow>
      unat (attr ! i) = lower_bound lt dict (vc_values c ! i)"
  proof -
    assume nn: "\<not> row_is_null c i"
    have "lower_bound lt dict (vc_values c ! i) < 2 ^ 32" using found [OF nn] len by simp
    then have "unat (of_nat (lower_bound lt dict (vc_values c ! i)) :: 32 word)
        = lower_bound lt dict (vc_values c ! i)"
      by (rule unat_of_nat_32)
    then show ?thesis using at_value [OF nn] by simp
  qed
  have bound: "unat (attr ! i) \<le> length dict"
  proof (cases "row_is_null c i")
    case True
    then show ?thesis using at_null nid by simp
  next
    case False
    then show ?thesis using value_id found by simp
  qed
  have "zs_get (encode_by_zs_type (get_fixed_size_byte_aligned_encoding (length dict + 1)) attr) i = attr ! i"
    using i bound len
    by (intro zs_get_encode_by_zs_type) (simp_all add: attr_def build_attribute_vector_length)
  then have get: "zs_get (attribute_vector (encode lt eq c)) i = attr ! i"
    unfolding encode_attribute_vector attr_def dict_def .
  have ed: "dictionary (encode lt eq c) = dict" by (simp add: encode_dictionary dict_def)
  have en: "null_value_id (encode lt eq c) = of_nat (length dict)"
    by (simp add: encode_null_value_id dict_def)
  show ?thesis
  proof (cases "row_is_null c i")
    case True
    then show ?thesis
      unfolding ed en get using strict dis sub nid at_null by simp
  next
    case False
    then show ?thesis
      unfolding ed en get using strict dis sub nid value_id found by simp
  qed
qed

text \<open>
  A nullable column of the element type Float: the NULL row holds NaN, the other rows
  numbers.
\<close>

theorem dictionary_encoding_round_trip_witness:
  "(case null_values \<lparr> vc_values = [Number 2.5, NaN, Number 1, Number 2.5],
                       null_values = Some [False, True, False, False] \<rparr> of
      None \<Rightarrow> True
    | Some nulls \<Rightarrow> length nulls
        = length (vc_values \<lparr> vc_values = [Number 2.5, NaN, Number 1, Number 2.5],
                               null_values = Some [False, True, False, False] \<rparr>))
   \<and> length (vc_values \<lparr> vc_values = [Number 2.5, NaN, Number 1, Number 2.5],
                          null_values = Some [False, True, False, False] \<rparr>) < 2 ^ 32
   \<and> strict_weak_order_on
        (non_null_values \<lparr> vc_values = [Number 2.5, NaN, Number 1, Number 2.5],
                           null_values = Some [False, True, False, False] \<rparr>) float_less float_eq
   \<and> (0::nat) < length (vc_values \<lparr> vc_values = [Number 2.5, NaN, Number 1, Number 2.5],
                                    null_values = Some [False, True, False, False] \<rparr>)
   \<and> \<not> row_is_null \<lparr> vc_values = [Number 2.5, NaN, Number 1, Number 2.5],
                       null_values = Some [False, True, False, False] \<rparr> 0
   \<and> float_eq
       (dictionary (encode float_less float_eq
            \<lparr> vc_values = [Number 2.5, NaN, Number 1, Number 2.5],
              null_values = Some [False, True, False, False] \<rparr>)
        ! unat (zs_get (attribute_vector (encode float_less float_eq
            \<lparr> vc_values = [Number 2.5, NaN, Number 1, Number 2.5],
              null_values = Some [False, True, False, False] \<rparr>)) 0))
       (Number 2.5)"
proof -
  let ?c = "\<lparr> vc_values = [Number 2.5, NaN, Number 1, Number 2.5],
             null_values = Some [False, True, False, False] \<rparr>"
  have h1: "case null_values ?c of None \<Rightarrow> True | Some nulls \<Rightarrow> length nulls = length (vc_values ?c)"
    by simp
  have h2: "length (vc_values ?c) < 2 ^ 32" by simp
  have "non_null_values ?c \<subseteq> range Number"
  proof
    fix x assume "x \<in> non_null_values ?c"
    then obtain i where x: "x = vc_values ?c ! i" and i: "i < 4" and nn: "\<not> row_is_null ?c i"
      by (auto simp: non_null_values_def)
    from i have "i = 0 \<or> i = 1 \<or> i = 2 \<or> i = 3" by auto
    with x nn have "x = Number 2.5 \<or> x = Number 1" by (auto simp: row_is_null_def)
    then show "x \<in> range Number" by blast
  qed
  with float_numbers_strict_weak_order
  have h3: "strict_weak_order_on (non_null_values ?c) float_less float_eq"
    by (rule strict_weak_order_on_subset)
  have h4: "0 < length (vc_values ?c)" by simp
  have nn: "\<not> row_is_null ?c 0" by (simp add: row_is_null_def)
  from dictionary_encoding_round_trip [OF h1 h2 h3 h4] nn
  have "float_eq (dictionary (encode float_less float_eq ?c)
                    ! unat (zs_get (attribute_vector (encode float_less float_eq ?c)) 0))
          (vc_values ?c ! 0)"
    by simp
  then have "float_eq (dictionary (encode float_less float_eq ?c)
                    ! unat (zs_get (attribute_vector (encode float_less float_eq ?c)) 0))
          (Number 2.5)"
    by simp
  with h1 h2 h3 h4 nn show ?thesis by blast
qed

text \<open>
  A column of the 255 distinct values 0 to 254 has a dictionary of size 255 and is
  compressed with two bytes per element.
\<close>

theorem encoder_zs_type_counterexample:
  "length (dictionary (encode (<) (=) \<lparr> vc_values = [0..<255], null_values = None \<rparr>)) = 255
   \<and> zs_type_of (attribute_vector (encode (<) (=) \<lparr> vc_values = [0..<255], null_values = None \<rparr>))
       = FixedSize2ByteAligned"
proof -
  have "std_sort (<) [0..<255::nat] = [0..<255]"
    by (simp add: std_sort_sort sorted_sort_id)
  moreover have "std_unique (=) [0..<255::nat] = [0..<255]"
    by (simp add: std_unique_remdups_adj remdups_adj_distinct)
  ultimately have d: "build_dictionary (<) (=) \<lparr> vc_values = [0..<255], null_values = None \<rparr> = [0..<255]"
    by (simp add: build_dictionary_def)
  then have l: "length (dictionary (encode (<) (=) \<lparr> vc_values = [0..<255], null_values = None \<rparr>)) = 255"
    by (simp add: encode_dictionary)
  show ?thesis
    unfolding encode_zs_type l using l by (simp add: get_fixed_size_byte_aligned_encoding_def)
qed

text \<open>
  Claim C3, as the code has it. The encoder picks the vector type from
  \<^verbatim>\<open>dictionary.size() + 1\<close>: one byte when that count is at most 255, two bytes when
  it is at most 65535, four bytes otherwise. The chosen type always holds the null value
  id (the dictionary size) of a column with fewer than \<open>2\<^sup>3\<^sup>2\<close> rows, but it is one
  step wider than necessary when the dictionary has exactly 255 or 65535 entries: a
  column of 255 distinct values gets two bytes although the largest stored index, 255,
  fits in one.
\<close>

theorem encoder_zs_type_by_dictionary_size_plus_one:
  "zs_type_of (attribute_vector (encode lt eq c)) =
     (if length (dictionary (encode lt eq c)) + 1 \<le> 255 then FixedSize1ByteAligned
      else if length (dictionary (encode lt eq c)) + 1 \<le> 65535 then FixedSize2ByteAligned
      else FixedSize4ByteAligned)
   \<and> (length (vc_values c) < 2 ^ 32 \<longrightarrow>
        length (dictionary (encode lt eq c)) \<le> zs_max_value (zs_type_of (attribute_vector (encode lt eq c))))"
proof -
  have "length (vc_values c) < 2 ^ 32 \<Longrightarrow>
        length (dictionary (encode lt eq c)) \<le> zs_max_value (zs_type_of (attribute_vector (encode lt eq c)))"
  proof -
    assume "length (vc_values c) < 2 ^ 32"
    then have "length (dictionary (encode lt eq c)) < 2 ^ 32"
      using build_dictionary_length [of lt eq c] by (simp add: encode_dictionary)
    then show ?thesis
      unfolding encode_zs_type
      by (simp add: get_fixed_size_byte_aligned_encoding_def zs_max_value_def)
  qed
  then show ?thesis
    unfolding encode_zs_type by (simp add: get_fixed_size_byte_aligned_encoding_def)
qed

theorem encoder_zs_type_by_dictionary_size_plus_one_witness:
  "length (vc_values \<lparr> vc_values = [2::nat, 0, 1, 1], null_values = Some [False, True, False, False] \<rparr>) < 2 ^ 32
   \<and> zs_type_of (attribute_vector
        (encode (<) (=) \<lparr> vc_values = [2::nat, 0, 1, 1], null_values = Some [False, True, False, False] \<rparr>))
       = FixedSize1ByteAligned
   \<and> length (dictionary (encode (<) (=) \<lparr> vc_values = [2::nat, 0, 1, 1], null_values = Some [False, True, False, False] \<rparr>))
       \<le> zs_max_value (zs_type_of (attribute_vector
             (encode (<) (=) \<lparr> vc_values = [2::nat, 0, 1, 1], null_values = Some [False, True, False, False] \<rparr>)))"
proof -
  let ?c = "\<lparr> vc_values = [2::nat, 0, 1, 1], null_values = Some [False, True, False, False] \<rparr>"
  have h: "length (vc_values ?c) < 2 ^ 32" by simp
  have l: "length (dictionary (encode (<) (=) ?c)) \<le> 4"
    using build_dictionary_length [of "(<)" "(=)" ?c] by (simp add: encode_dictionary)
  from encoder_zs_type_by_dictionary_size_plus_one [of "(<)" "(=)" ?c] h l
  show ?thesis by (simp add: zs_max_value_def)
qed



section \<open>Properties of the SQL translator\<close>





lemma having_aggregate_hidden_when_group_column_first:
  "translate_aggregate (stored_table_env [''a'', ''b''])
     [column_ref ''a'', function_ref ''SUM'' (column_ref ''b'')]
     (Some \<lparr> gb_columns = [column_ref ''a''],
             having = Some (binary_operator kOpGreater
                              (function_ref ''AVG'' (column_ref ''b'')) (literal_int 0)) \<rparr>)
   = Inr \<lparr> aggregate_node =
             \<lparr> aggregate_expressions =
                 [AggregateExpression Sum' (ColumnExpression 1 None) None,
                  AggregateExpression Avg (ColumnExpression 1 None) None],
               groupby_column_origins = [0] \<rparr>,
           having_clause = Some (binary_operator kOpGreater
                              (function_ref ''AVG'' (column_ref ''b'')) (literal_int 0)),
           projection_expressions =
             [(Some (GroupByColumn 0), None),
              (Some (AggregateColumn (AggregateExpression Sum' (ColumnExpression 1 None) None)), None)] \<rparr>"
  by (simp add: translate_aggregate_def stored_table_env_def column_ref_def function_ref_def
        binary_operator_def literal_int_def isType_def column_index_def Let_def
        example_expression_type_def find_column_origin_by_output_column_id_def
        aggregate_output_columns_def)

lemma add_having_aggregates_append:
  "\<exists>extra. add_having_aggregates env aggs hs = aggs @ extra \<and> set extra \<subseteq> set hs"
proof (induction hs arbitrary: aggs)
  case Nil
  then show ?case by simp
next
  case (Cons h hs)
  show ?case
  proof (cases "list_ex (\<lambda>expr. expression_equal env expr h) aggs")
    case True
    from Cons.IH [of aggs] obtain extra where
      "add_having_aggregates env aggs hs = aggs @ extra" "set extra \<subseteq> set hs" by blast
    with True show ?thesis by auto
  next
    case False
    from Cons.IH [of "aggs @ [h]"] obtain extra where
      e: "add_having_aggregates env (aggs @ [h]) hs = (aggs @ [h]) @ extra" "set extra \<subseteq> set hs"
      by blast
    have "add_having_aggregates env aggs (h # hs) = aggs @ (h # extra)"
      using False e(1) by simp
    moreover have "set (h # extra) \<subseteq> set (h # hs)" using e(2) by auto
    ultimately show ?thesis by blast
  qed
qed

lemma add_having_aggregates_covers:
  assumes "\<forall>h\<in>set hs. expression_equal env h h"
  shows "\<forall>h\<in>set hs. list_ex (\<lambda>expr. expression_equal env expr h) (add_having_aggregates env aggs hs)"
  using assms
proof (induction hs arbitrary: aggs)
  case Nil
  then show ?case by simp
next
  case (Cons h hs)
  define aggs' where "aggs' = (if list_ex (\<lambda>expr. expression_equal env expr h) aggs
                               then aggs else aggs @ [h])"
  have step: "add_having_aggregates env aggs (h # hs) = add_having_aggregates env aggs' hs"
    by (simp add: aggs'_def)
  have "list_ex (\<lambda>expr. expression_equal env expr h) aggs'"
    using Cons.prems by (auto simp: aggs'_def list_ex_iff)
  then obtain e where e: "e \<in> set aggs'" "expression_equal env e h"
    by (auto simp: list_ex_iff)
  from add_having_aggregates_append [of env aggs' hs] obtain extra where
    "add_having_aggregates env aggs' hs = aggs' @ extra" by blast
  with e have here: "list_ex (\<lambda>expr. expression_equal env expr h) (add_having_aggregates env aggs' hs)"
    by (auto simp: list_ex_iff)
  have rest: "\<forall>h'\<in>set hs. list_ex (\<lambda>expr. expression_equal env expr h')
                 (add_having_aggregates env aggs' hs)"
    using Cons.IH [of aggs'] Cons.prems by simp
  show ?case
    unfolding step using here rest by simp
qed

section \<open>Claims about the SQL translator\<close>

text \<open>
  Claim C5. When the left operand of a comparison does not refer to a column (or
  aggregate) and the right operand does, \<^verbatim>\<open>_translate_predicate\<close> scans the right
  operand's column and takes the left operand as the value. The scan type of the
  predicate node is fixed by the operator of the comparison: \<open>>\<close> gives \<open><\<close>, \<open><\<close> gives
  \<open>>\<close>, \<open>\<ge>\<close> gives \<open>\<le>\<close>, \<open>\<le>\<close> gives \<open>\<ge>\<close>, and \<open>=\<close>, \<open>\<noteq>\<close>, \<^verbatim>\<open>LIKE\<close> and \<^verbatim>\<open>NOT LIKE\<close> stay as
  they are. \<^verbatim>\<open>WHERE 5 > a\<close> yields column \<open>a\<close>, scan type \<open><\<close> and value 5.
\<close>

theorem translate_predicate_swaps_operands:
  assumes "h_expr e = Some lhs" "h_expr2 e = Some rhs"
    and "(opType e, reversed) \<in>
           {(kOpGreater, OpLessThan), (kOpLess, OpGreaterThan),
            (kOpGreaterEq, OpLessThanEquals), (kOpLessEq, OpGreaterThanEquals),
            (kOpEquals, OpEquals), (kOpNotEquals, OpNotEquals),
            (kOpLike, OpLike), (kOpNotLike, OpNotLike)}"
    and "\<not> refers_to_column allow_function_columns lhs"
    and "refers_to_column allow_function_columns rhs"
  shows "translate_predicate to_all_parameter_variant e allow_function_columns resolve_column input_node =
           Inr \<lparr> pn_column_origin = resolve_column rhs,
                 pn_scan_type = reversed,
                 pn_value = to_all_parameter_variant lhs,
                 pn_value2 = None,
                 pn_left_child = input_node \<rparr>"
proof -
  from assms(3) consider
      "opType e = kOpGreater" "reversed = OpLessThan"
    | "opType e = kOpLess" "reversed = OpGreaterThan"
    | "opType e = kOpGreaterEq" "reversed = OpLessThanEquals"
    | "opType e = kOpLessEq" "reversed = OpGreaterThanEquals"
    | "opType e = kOpEquals" "reversed = OpEquals"
    | "opType e = kOpNotEquals" "reversed = OpNotEquals"
    | "opType e = kOpLike" "reversed = OpLike"
    | "opType e = kOpNotLike" "reversed = OpNotLike"
    by auto
  then show ?thesis
    using assms(1,2,4,5)
    by cases
      (simp_all add: translate_predicate_def make_predicate_node_def
         translate_operator_type_to_scan_type_def get_scan_type_for_reverse_order_def)
qed

theorem translate_predicate_swaps_operands_witness:
  "h_expr (binary_operator kOpGreater (literal_int 5) (column_ref ''a'')) = Some (literal_int 5)
   \<and> h_expr2 (binary_operator kOpGreater (literal_int 5) (column_ref ''a'')) = Some (column_ref ''a'')
   \<and> opType (binary_operator kOpGreater (literal_int 5) (column_ref ''a'')) = kOpGreater
   \<and> \<not> refers_to_column False (literal_int 5)
   \<and> refers_to_column False (column_ref ''a'')
   \<and> map (\<lambda>op. map_sum id pn_scan_type
             (translate_predicate (\<lambda>e. ParameterValue (ival e))
                (binary_operator op (literal_int 5) (column_ref ''a'')) False h_name (0::nat)))
        [kOpGreater, kOpLess, kOpGreaterEq, kOpLessEq, kOpEquals, kOpNotEquals]
     = [Inr OpLessThan, Inr OpGreaterThan, Inr OpLessThanEquals, Inr OpGreaterThanEquals,
        Inr OpEquals, Inr OpNotEquals]
   \<and> translate_predicate (\<lambda>e. ParameterValue (ival e))
        (binary_operator kOpGreater (literal_int 5) (column_ref ''a'')) False h_name (0::nat) =
        Inr \<lparr> pn_column_origin = ''a'', pn_scan_type = OpLessThan, pn_value = ParameterValue 5,
              pn_value2 = None, pn_left_child = 0 \<rparr>"
proof -
  have h1: "h_expr (binary_operator op (literal_int 5) (column_ref ''a'')) = Some (literal_int 5)" for op
    by (simp add: binary_operator_def)
  have h2: "h_expr2 (binary_operator op (literal_int 5) (column_ref ''a'')) = Some (column_ref ''a'')" for op
    by (simp add: binary_operator_def)
  have h4: "\<not> refers_to_column False (literal_int 5)"
    by (simp add: refers_to_column_def isType_def literal_int_def)
  have h5: "refers_to_column False (column_ref ''a'')"
    by (simp add: refers_to_column_def isType_def column_ref_def)
  have r: "translate_predicate (\<lambda>e. ParameterValue (ival e))
        (binary_operator op (literal_int 5) (column_ref ''a'')) False h_name (0::nat) =
        Inr \<lparr> pn_column_origin = ''a'', pn_scan_type = reversed, pn_value = ParameterValue 5,
              pn_value2 = None, pn_left_child = 0 \<rparr>"
    if "(op, reversed) \<in>
           {(kOpGreater, OpLessThan), (kOpLess, OpGreaterThan),
            (kOpGreaterEq, OpLessThanEquals), (kOpLessEq, OpGreaterThanEquals),
            (kOpEquals, OpEquals), (kOpNotEquals, OpNotEquals),
            (kOpLike, OpLike), (kOpNotLike, OpNotLike)}" for op reversed
  proof -
    have h3: "(opType (binary_operator op (literal_int 5) (column_ref ''a'')), reversed) \<in>
           {(kOpGreater, OpLessThan), (kOpLess, OpGreaterThan),
            (kOpGreaterEq, OpLessThanEquals), (kOpLessEq, OpGreaterThanEquals),
            (kOpEquals, OpEquals), (kOpNotEquals, OpNotEquals),
            (kOpLike, OpLike), (kOpNotLike, OpNotLike)}"
      using that by (simp add: binary_operator_def)
    from translate_predicate_swaps_operands [OF h1 h2 h3 h4 h5,
        of "\<lambda>e. ParameterValue (ival e)" h_name "0::nat"]
    show ?thesis by (simp add: literal_int_def column_ref_def)
  qed
  have "map (\<lambda>op. map_sum id pn_scan_type
             (translate_predicate (\<lambda>e. ParameterValue (ival e))
                (binary_operator op (literal_int 5) (column_ref ''a'')) False h_name (0::nat)))
        [kOpGreater, kOpLess, kOpGreaterEq, kOpLessEq, kOpEquals, kOpNotEquals]
     = [Inr OpLessThan, Inr OpGreaterThan, Inr OpLessThanEquals, Inr OpGreaterThanEquals,
        Inr OpEquals, Inr OpNotEquals]"
    by (simp add: r [of kOpGreater OpLessThan] r [of kOpLess OpGreaterThan]
          r [of kOpGreaterEq OpLessThanEquals] r [of kOpLessEq OpGreaterThanEquals]
          r [of kOpEquals OpEquals] r [of kOpNotEquals OpNotEquals])
  moreover have "opType (binary_operator kOpGreater (literal_int 5) (column_ref ''a'')) = kOpGreater"
    by (simp add: binary_operator_def)
  ultimately show ?thesis
    using h1 [of kOpGreater] h2 [of kOpGreater] h4 h5 r [of kOpGreater OpLessThan] by simp
qed





text \<open>
  Claim C6 at \<^verbatim>\<open>SELECT a, SUM(b) FROM t GROUP BY a HAVING AVG(b) > 0\<close> on a table with
  columns \<open>x\<close>, \<open>b\<close>, \<open>a\<close> in this order. The aggregate expressions are SUM(b) and the
  appended AVG(b), and the aggregate node outputs \<open>a\<close>, SUM(b), AVG(b). The SELECT-list
  column \<open>a\<close> is recorded with its output column id in the
  \<^verbatim>\<open>groupby_aliasing_node\<close>, which is 2, and the final projection reads column 2 of the
  aggregate node: it exposes AVG(b) and SUM(b).
\<close>

theorem having_aggregate_exposed_by_projection:
  "translate_aggregate (stored_table_env [''x'', ''b'', ''a''])
     [column_ref ''a'', function_ref ''SUM'' (column_ref ''b'')]
     (Some \<lparr> gb_columns = [column_ref ''a''],
             having = Some (binary_operator kOpGreater
                              (function_ref ''AVG'' (column_ref ''b'')) (literal_int 0)) \<rparr>)
   = Inr \<lparr> aggregate_node =
             \<lparr> aggregate_expressions =
                 [AggregateExpression Sum' (ColumnExpression 1 None) None,
                  AggregateExpression Avg (ColumnExpression 1 None) None],
               groupby_column_origins = [2] \<rparr>,
           having_clause = Some (binary_operator kOpGreater
                              (function_ref ''AVG'' (column_ref ''b'')) (literal_int 0)),
           projection_expressions =
             [(Some (AggregateColumn (AggregateExpression Avg (ColumnExpression 1 None) None)), None),
              (Some (AggregateColumn (AggregateExpression Sum' (ColumnExpression 1 None) None)), None)] \<rparr>"
  by (simp add: translate_aggregate_def stored_table_env_def column_ref_def function_ref_def
        binary_operator_def literal_int_def isType_def column_index_def Let_def
        example_expression_type_def find_column_origin_by_output_column_id_def
        aggregate_output_columns_def)

section \<open>Properties of the SetUnion operator\<close>

lemma set_set_union_merge: "set (set_union_merge xs ys) = set xs \<union> set ys"
  by (induction xs ys rule: set_union_merge.induct) auto

lemma sorted_set_union_merge:
  "sorted xs \<Longrightarrow> sorted ys \<Longrightarrow> sorted (set_union_merge xs ys)"
  by (induction xs ys rule: set_union_merge.induct) (auto simp: set_set_union_merge)

lemma count_zero_if_less_all:
  assumes "\<forall>z\<in>set zs. x < z"
  shows "count (mset zs) (x::'a::linorder) = 0"
proof -
  have "x \<notin> set zs" using assms by auto
  then show ?thesis by (simp add: count_mset_0_iff)
qed

lemma mset_set_union_merge:
  "sorted xs \<Longrightarrow> sorted ys \<Longrightarrow> mset (set_union_merge xs ys) = mset xs \<union># mset ys"
proof (induction xs ys rule: set_union_merge.induct)
  case (1 ys)
  then show ?case by simp
next
  case (2 x xs)
  then show ?case by simp
next
  case (3 x xs y ys)
  from "3.prems" have sx: "sorted xs" and sy: "sorted ys"
    and lx: "\<forall>z\<in>set xs. x \<le> z" and ly: "\<forall>z\<in>set ys. y \<le> z" by simp_all
  show ?case
  proof (cases "y < x")
    case True
    have IH: "mset (set_union_merge (x # xs) ys) = mset (x # xs) \<union># mset ys"
      using "3.IH"(1) [OF True "3.prems"(1) sy] .
    have "\<forall>z\<in>set (x # xs). y < z" using True lx by auto
    then have c0: "count (mset (x # xs)) y = 0" by (rule count_zero_if_less_all)
    have "add_mset y (mset (x # xs) \<union># mset ys) = mset (x # xs) \<union># add_mset y (mset ys)"
    proof (rule multiset_eqI)
      fix a
      show "count (add_mset y (mset (x # xs) \<union># mset ys)) a
          = count (mset (x # xs) \<union># add_mset y (mset ys)) a"
        using c0 by (cases "a = y") (simp_all del: mset.simps)
    qed
    with IH True show ?thesis by simp
  next
    case nyx: False
    show ?thesis
    proof (cases "x < y")
      case True
      have IH: "mset (set_union_merge xs (y # ys)) = mset xs \<union># mset (y # ys)"
        using "3.IH"(2) [OF nyx True sx "3.prems"(2)] .
      have "\<forall>z\<in>set (y # ys). x < z" using True ly by auto
      then have c0: "count (mset (y # ys)) x = 0" by (rule count_zero_if_less_all)
      have "add_mset x (mset xs \<union># mset (y # ys)) = add_mset x (mset xs) \<union># mset (y # ys)"
      proof (rule multiset_eqI)
        fix a
        show "count (add_mset x (mset xs \<union># mset (y # ys))) a
            = count (add_mset x (mset xs) \<union># mset (y # ys)) a"
          using c0 by (cases "a = x") (simp_all del: mset.simps)
      qed
      with IH True nyx show ?thesis by simp
    next
      case False
      with nyx have eq: "x = y" by simp
      have IH: "mset (set_union_merge xs ys) = mset xs \<union># mset ys"
        using "3.IH"(3) [OF nyx False sx sy] .
      have "add_mset y (mset xs \<union># mset ys) = add_mset y (mset xs) \<union># add_mset y (mset ys)"
        by (rule multiset_eqI) simp
      with IH eq show ?thesis by simp
    qed
  qed
qed

lemma VirtualPosListCmp_iff:
  "VirtualPosListCmp m i j \<longleftrightarrow> matrix_row m i < matrix_row m j"
  by (induction m) (auto simp: matrix_row_def)

lemma cmp_from_iff:
  assumes "length ma = length mb"
  shows "cmp_from ma ia mb ib k \<longleftrightarrow> drop k (matrix_row ma ia) < drop k (matrix_row mb ib)"
  using assms
proof (induction ma ia mb ib k rule: cmp_from.induct)
  case (1 ma ia mb ib k)
  show ?case
  proof (cases "k < length ma")
    case False
    then show ?thesis
      using "1.prems" by (simp add: cmp_from.simps [of ma ia mb ib k] matrix_row_def)
  next
    case True
    then have kb: "k < length mb" using "1.prems" by simp
    have da: "drop k (matrix_row ma ia) = ma ! k ! ia # drop (Suc k) (matrix_row ma ia)"
      using True by (simp add: matrix_row_def Cons_nth_drop_Suc [symmetric])
    have db: "drop k (matrix_row mb ib) = mb ! k ! ib # drop (Suc k) (matrix_row mb ib)"
      using kb by (simp add: matrix_row_def Cons_nth_drop_Suc [symmetric])
    show ?thesis
    proof (cases "ma ! k ! ia < mb ! k ! ib")
      case lt: True
      then show ?thesis
        using True by (simp add: cmp_from.simps [of ma ia mb ib k] da db)
    next
      case nlt: False
      show ?thesis
      proof (cases "mb ! k ! ib < ma ! k ! ia")
        case gt: True
        then show ?thesis
          using True nlt by (simp add: cmp_from.simps [of ma ia mb ib k] da db)
      next
        case ngt: False
        with nlt have eq: "ma ! k ! ia = mb ! k ! ib" by simp
        have "cmp_from ma ia mb ib (k + 1)
              \<longleftrightarrow> drop (k + 1) (matrix_row ma ia) < drop (k + 1) (matrix_row mb ib)"
          using "1.IH" [OF True nlt ngt "1.prems"] .
        then show ?thesis
          using True nlt ngt eq by (simp add: cmp_from.simps [of ma ia mb ib k] da db)
      qed
    qed
  qed
qed

lemma cmp_iff:
  assumes "length ma = length mb"
  shows "cmp ma ia mb ib \<longleftrightarrow> matrix_row ma ia < matrix_row mb ib"
  using cmp_from_iff [OF assms, of ia ib 0] by (simp add: cmp_def)

lemma chunkify_small: "m = 0 \<or> length xs < m \<Longrightarrow> chunkify m xs = ([], xs)"
  by (simp add: chunkify.simps [of m xs])

lemma chunkify_full:
  assumes "length c = m" "m \<noteq> 0"
  shows "chunkify m (c @ xs) = (c # fst (chunkify m xs), snd (chunkify m xs))"
  using assms by (simp add: chunkify.simps [of m "c @ xs"] split: prod.splits)

lemma push_rows_chunkify:
  assumes "m = 0 \<or> length p < m"
  shows "push_rows m (cs, p) xs = (cs @ fst (chunkify m (p @ xs)), snd (chunkify m (p @ xs)))"
  using assms
proof (induction xs arbitrary: cs p)
  case Nil
  then show ?case by (simp add: push_rows_def chunkify_small)
next
  case (Cons x xs)
  show ?case
  proof (cases "length (p @ [x]) = m \<and> m \<noteq> 0")
    case True
    then have step: "push_row m (cs, p) x = (cs @ [p @ [x]], [])"
      by (simp add: push_row_def)
    have "chunkify m ((p @ [x]) @ xs) = ((p @ [x]) # fst (chunkify m xs), snd (chunkify m xs))"
      using True by (intro chunkify_full) simp_all
    moreover have "push_rows m (cs @ [p @ [x]], []) xs
        = ((cs @ [p @ [x]]) @ fst (chunkify m ([] @ xs)), snd (chunkify m ([] @ xs)))"
      using True by (intro Cons.IH) auto
    ultimately show ?thesis
      using step by (simp add: push_rows_def)
  next
    case False
    then have step: "push_row m (cs, p) x = (cs, p @ [x])"
      by (auto simp: push_row_def Let_def)
    have "m = 0 \<or> length (p @ [x]) < m" using False Cons.prems by auto
    then have "push_rows m (cs, p @ [x]) xs
        = (cs @ fst (chunkify m ((p @ [x]) @ xs)), snd (chunkify m ((p @ [x]) @ xs)))"
      by (rule Cons.IH)
    then show ?thesis using step by (simp add: push_rows_def)
  qed
qed

lemma chunkify_props:
  "concat (fst (chunkify m xs)) @ snd (chunkify m xs) = xs
   \<and> (\<forall>c\<in>set (fst (chunkify m xs)). length c = m)
   \<and> (m \<noteq> 0 \<longrightarrow> length (snd (chunkify m xs)) < m)
   \<and> (m = 0 \<longrightarrow> fst (chunkify m xs) = [])"
proof (induction m xs rule: chunkify.induct)
  case (1 m xs)
  show ?case
  proof (cases "m = 0 \<or> length xs < m")
    case True
    then show ?thesis by (auto simp: chunkify_small)
  next
    case False
    then have l: "length (take m xs) = m" and m: "m \<noteq> 0" by simp_all
    have "chunkify m (take m xs @ drop m xs)
        = (take m xs # fst (chunkify m (drop m xs)), snd (chunkify m (drop m xs)))"
      using l m by (rule chunkify_full)
    then have eq: "chunkify m xs
        = (take m xs # fst (chunkify m (drop m xs)), snd (chunkify m (drop m xs)))"
      by simp
    have IH: "concat (fst (chunkify m (drop m xs))) @ snd (chunkify m (drop m xs)) = drop m xs
       \<and> (\<forall>c\<in>set (fst (chunkify m (drop m xs))). length c = m)
       \<and> (m \<noteq> 0 \<longrightarrow> length (snd (chunkify m (drop m xs))) < m)"
      using "1.IH" [OF False] by simp
    have "take m xs @ concat (fst (chunkify m (drop m xs))) @ snd (chunkify m (drop m xs)) = xs"
      using IH by simp
    then show ?thesis
      unfolding eq using IH l m by simp
  qed
qed


lemma concat_chunk_lists: "concat (chunk_lists m xs) = xs"
  using chunkify_props [of m xs] by (auto simp: chunk_lists_def)


lemma length_matrix_row: "length (matrix_row m i) = length m"
  by (simp add: matrix_row_def)

lemma emit_row_rows:
  assumes "length m = S"
  shows "emit_row (rows_to_pos_lists S p) m i = rows_to_pos_lists S (p @ [matrix_row m i])"
  using assms by (auto simp: emit_row_def rows_to_pos_lists_def matrix_row_def)

lemma rows_to_pos_lists_Nil: "rows_to_pos_lists S [] = replicate S []"
  by (simp add: rows_to_pos_lists_def map_replicate_const)

lemma length_rows_to_pos_lists: "length (rows_to_pos_lists S rows) = S"
  by (simp add: rows_to_pos_lists_def)

lemma set_union_merge_Nil_right: "set_union_merge xs [] = xs"
  by (cases xs) simp_all

lemma merge_step_sim:
  fixes ctx :: "'r::linorder merge_context"
  assumes S: "length (reference_matrix_left ctx) = S" "length (reference_matrix_right ctx) = S"
    and go: "left_idx s < length (virtual_pos_list_left ctx)
             \<or> right_idx s < length (virtual_pos_list_right ctx)"
    and bl: "left_idx s \<le> length (virtual_pos_list_left ctx)"
    and br: "right_idx s \<le> length (virtual_pos_list_right ctx)"
    and res: "result_pos_lists s = rows_to_pos_lists S p"
    and cri: "chunk_row_idx s = length p"
  shows "\<exists>x. set_union_merge (drop (left_idx s) (left_rows ctx)) (drop (right_idx s) (right_rows ctx))
             = x # set_union_merge (drop (left_idx (merge_step ctx s)) (left_rows ctx))
                                   (drop (right_idx (merge_step ctx s)) (right_rows ctx))
           \<and> result_pos_lists (merge_step ctx s) = rows_to_pos_lists S (p @ [x])
           \<and> chunk_row_idx (merge_step ctx s) = Suc (length p)
           \<and> out_chunks (merge_step ctx s) = out_chunks s
           \<and> left_idx (merge_step ctx s) \<le> length (virtual_pos_list_left ctx)
           \<and> right_idx (merge_step ctx s) \<le> length (virtual_pos_list_right ctx)"
proof -
  define ml where "ml = reference_matrix_left ctx"
  define mr where "mr = reference_matrix_right ctx"
  define vl where "vl = virtual_pos_list_left ctx"
  define vr where "vr = virtual_pos_list_right ctx"
  define li where "li = left_idx s"
  define ri where "ri = right_idx s"
  have lenL: "length (left_rows ctx) = length vl" by (simp add: left_rows_def vl_def)
  have lenR: "length (right_rows ctx) = length vr" by (simp add: right_rows_def vr_def)
  have emitL: "emit_row (result_pos_lists s) ml i = rows_to_pos_lists S (p @ [matrix_row ml i])" for i
    unfolding res using S(1) by (intro emit_row_rows) (simp add: ml_def)
  have emitR: "emit_row (result_pos_lists s) mr i = rows_to_pos_lists S (p @ [matrix_row mr i])" for i
    unfolding res using S(2) by (intro emit_row_rows) (simp add: mr_def)
  have dropL: "li < length vl \<Longrightarrow>
      drop li (left_rows ctx) = matrix_row ml (vl ! li) # drop (Suc li) (left_rows ctx)"
    using lenL by (simp add: Cons_nth_drop_Suc [symmetric] left_rows_def vl_def ml_def)
  have dropR: "ri < length vr \<Longrightarrow>
      drop ri (right_rows ctx) = matrix_row mr (vr ! ri) # drop (Suc ri) (right_rows ctx)"
    using lenR by (simp add: Cons_nth_drop_Suc [symmetric] right_rows_def vr_def mr_def)
  show ?thesis
  proof (cases "li = length vl")
    case True
    then have r: "ri < length vr" using go by (simp add: li_def ri_def vl_def vr_def)
    have st: "merge_step ctx s =
        s\<lparr> result_pos_lists := emit_row (result_pos_lists s) mr (vr ! ri),
           right_idx := ri + 1, chunk_row_idx := chunk_row_idx s + 1 \<rparr>"
      using True by (simp add: merge_step_def Let_def li_def ri_def vl_def vr_def mr_def)
    have dl: "drop li (left_rows ctx) = []" using True lenL by simp
    show ?thesis
      unfolding st li_def [symmetric] ri_def [symmetric] vl_def [symmetric] vr_def [symmetric]
      using dl dropR [OF r] emitR r cri True
      by (intro exI [of _ "matrix_row mr (vr ! ri)"]) (simp add: li_def)
  next
    case nl: False
    then have l: "li < length vl" using bl by (simp add: li_def vl_def)
    show ?thesis
    proof (cases "ri = length vr")
      case True
      have st: "merge_step ctx s =
          s\<lparr> result_pos_lists := emit_row (result_pos_lists s) ml (vl ! li),
             left_idx := li + 1, chunk_row_idx := chunk_row_idx s + 1 \<rparr>"
        using True nl by (simp add: merge_step_def Let_def li_def ri_def vl_def vr_def ml_def)
      have dr: "drop ri (right_rows ctx) = []" using True lenR by simp
      show ?thesis
        unfolding st li_def [symmetric] ri_def [symmetric] vl_def [symmetric] vr_def [symmetric]
        using dr dropL [OF l] emitL l cri True
        by (intro exI [of _ "matrix_row ml (vl ! li)"])
           (simp add: ri_def set_union_merge_Nil_right)
    next
      case nr: False
      then have r: "ri < length vr" using br by (simp add: ri_def vr_def)
      define x where "x = matrix_row ml (vl ! li)"
      define y where "y = matrix_row mr (vr ! ri)"
      have c1: "cmp mr (vr ! ri) ml (vl ! li) \<longleftrightarrow> y < x"
        unfolding x_def y_def using S by (intro cmp_iff) (simp add: ml_def mr_def)
      have c2: "cmp ml (vl ! li) mr (vr ! ri) \<longleftrightarrow> x < y"
        unfolding x_def y_def using S by (intro cmp_iff) (simp add: ml_def mr_def)
      show ?thesis
      proof (cases "y < x")
        case True
        have st: "merge_step ctx s =
            s\<lparr> result_pos_lists := emit_row (result_pos_lists s) mr (vr ! ri),
               right_idx := ri + 1, chunk_row_idx := chunk_row_idx s + 1 \<rparr>"
          using True nl nr c1
          by (simp add: merge_step_def Let_def li_def ri_def vl_def vr_def mr_def ml_def)
        show ?thesis
          unfolding st li_def [symmetric] ri_def [symmetric] vl_def [symmetric] vr_def [symmetric]
          using dropL [OF l] dropR [OF r] emitR l r cri True
          by (intro exI [of _ y]) (simp add: li_def x_def y_def)
      next
        case nyx: False
        show ?thesis
        proof (cases "x < y")
          case True
          have st: "merge_step ctx s =
              s\<lparr> result_pos_lists := emit_row (result_pos_lists s) ml (vl ! li),
                 right_idx := ri, left_idx := li + 1, chunk_row_idx := chunk_row_idx s + 1 \<rparr>"
            using True nyx nl nr c1 c2
            by (simp add: merge_step_def Let_def li_def ri_def vl_def vr_def mr_def ml_def)
          show ?thesis
            unfolding st li_def [symmetric] ri_def [symmetric] vl_def [symmetric] vr_def [symmetric]
            using dropL [OF l] dropR [OF r] emitL l r cri True nyx
            by (intro exI [of _ x]) (simp add: ri_def x_def y_def)
        next
          case False
          have st: "merge_step ctx s =
              s\<lparr> result_pos_lists := emit_row (result_pos_lists s) ml (vl ! li),
                 right_idx := ri + 1, left_idx := li + 1, chunk_row_idx := chunk_row_idx s + 1 \<rparr>"
            using False nyx nl nr c1 c2
            by (simp add: merge_step_def Let_def li_def ri_def vl_def vr_def mr_def ml_def)
          show ?thesis
            unfolding st li_def [symmetric] ri_def [symmetric] vl_def [symmetric] vr_def [symmetric]
            using dropL [OF l] dropR [OF r] emitL l r cri False nyx
            by (intro exI [of _ x]) (simp add: x_def y_def)
        qed
      qed
    qed
  qed
qed

lemma emit_completed_chunk_sim:
  assumes "result_pos_lists s1 = rows_to_pos_lists S (p @ [x])"
    and "chunk_row_idx s1 = Suc (length p)"
    and "out_chunks s1 = map (\<lambda>rows. emit_chunk ctx (rows_to_pos_lists S rows)) cs"
  shows "result_pos_lists (emit_completed_chunk ctx s1)
           = rows_to_pos_lists S (snd (push_row (out_chunk_size ctx) (cs, p) x))
       \<and> chunk_row_idx (emit_completed_chunk ctx s1)
           = length (snd (push_row (out_chunk_size ctx) (cs, p) x))
       \<and> out_chunks (emit_completed_chunk ctx s1)
           = map (\<lambda>rows. emit_chunk ctx (rows_to_pos_lists S rows))
               (fst (push_row (out_chunk_size ctx) (cs, p) x))
       \<and> left_idx (emit_completed_chunk ctx s1) = left_idx s1
       \<and> right_idx (emit_completed_chunk ctx s1) = right_idx s1"
  using assms
  by (simp add: emit_completed_chunk_def push_row_def Let_def rows_to_pos_lists_Nil
        length_rows_to_pos_lists)

lemma push_rows_Cons: "push_rows m st (x # xs) = push_rows m (push_row m st x) xs"
  by (simp add: push_rows_def)

lemma merge_loop_sim:
  fixes ctx :: "'r::linorder merge_context"
  assumes "length (reference_matrix_left ctx) = S" "length (reference_matrix_right ctx) = S"
    and "left_idx s \<le> length (virtual_pos_list_left ctx)"
    and "right_idx s \<le> length (virtual_pos_list_right ctx)"
    and "result_pos_lists s = rows_to_pos_lists S p"
    and "chunk_row_idx s = length p"
    and "out_chunks s = map (\<lambda>rows. emit_chunk ctx (rows_to_pos_lists S rows)) cs"
  shows "result_pos_lists (merge_loop ctx s)
           = rows_to_pos_lists S (snd (push_rows (out_chunk_size ctx) (cs, p)
               (set_union_merge (drop (left_idx s) (left_rows ctx)) (drop (right_idx s) (right_rows ctx)))))
       \<and> chunk_row_idx (merge_loop ctx s)
           = length (snd (push_rows (out_chunk_size ctx) (cs, p)
               (set_union_merge (drop (left_idx s) (left_rows ctx)) (drop (right_idx s) (right_rows ctx)))))
       \<and> out_chunks (merge_loop ctx s)
           = map (\<lambda>rows. emit_chunk ctx (rows_to_pos_lists S rows))
               (fst (push_rows (out_chunk_size ctx) (cs, p)
               (set_union_merge (drop (left_idx s) (left_rows ctx)) (drop (right_idx s) (right_rows ctx)))))"
  using assms
proof (induction ctx s arbitrary: cs p rule: merge_loop.induct)
  case (1 ctx s)
  let ?go = "(left_idx s < length (virtual_pos_list_left ctx)
              \<or> right_idx s < length (virtual_pos_list_right ctx))
             \<and> left_idx s \<le> length (virtual_pos_list_left ctx)
             \<and> right_idx s \<le> length (virtual_pos_list_right ctx)"
  show ?case
  proof (cases ?go)
    case False
    with "1.prems"(3,4) have "left_idx s = length (virtual_pos_list_left ctx)"
      and "right_idx s = length (virtual_pos_list_right ctx)" by auto
    then have "drop (left_idx s) (left_rows ctx) = []" "drop (right_idx s) (right_rows ctx) = []"
      by (simp_all add: left_rows_def right_rows_def)
    moreover have "merge_loop ctx s = s"
    proof -
      have "merge_loop ctx s =
          (if ?go then merge_loop ctx (emit_completed_chunk ctx (merge_step ctx s)) else s)"
        by (rule merge_loop.simps)
      also have "\<dots> = s" by (rule if_not_P [OF False])
      finally show ?thesis .
    qed
    ultimately show ?thesis
      using "1.prems"(5,6,7) by (simp add: push_rows_def)
  next
    case True
    define s1 where "s1 = merge_step ctx s"
    define s2 where "s2 = emit_completed_chunk ctx s1"
    from True have go: "left_idx s < length (virtual_pos_list_left ctx)
              \<or> right_idx s < length (virtual_pos_list_right ctx)" by simp
    from merge_step_sim [OF "1.prems"(1,2) go "1.prems"(3,4,5,6)]
    obtain x where x:
      "set_union_merge (drop (left_idx s) (left_rows ctx)) (drop (right_idx s) (right_rows ctx))
         = x # set_union_merge (drop (left_idx s1) (left_rows ctx)) (drop (right_idx s1) (right_rows ctx))"
      "result_pos_lists s1 = rows_to_pos_lists S (p @ [x])"
      "chunk_row_idx s1 = Suc (length p)"
      "out_chunks s1 = out_chunks s"
      "left_idx s1 \<le> length (virtual_pos_list_left ctx)"
      "right_idx s1 \<le> length (virtual_pos_list_right ctx)"
      unfolding s1_def by blast
    have oc: "out_chunks s1 = map (\<lambda>rows. emit_chunk ctx (rows_to_pos_lists S rows)) cs"
      using x(4) "1.prems"(7) by simp
    note e = emit_completed_chunk_sim [OF x(2,3) oc]
    obtain cs' p' where st': "push_row (out_chunk_size ctx) (cs, p) x = (cs', p')"
      by (cases "push_row (out_chunk_size ctx) (cs, p) x")
    have e1: "result_pos_lists s2 = rows_to_pos_lists S p'"
      and e2: "chunk_row_idx s2 = length p'"
      and e3: "out_chunks s2 = map (\<lambda>rows. emit_chunk ctx (rows_to_pos_lists S rows)) cs'"
      and e4: "left_idx s2 = left_idx s1" and e5: "right_idx s2 = right_idx s1"
      using e st' by (simp_all add: s2_def)
    have bl: "left_idx s2 \<le> length (virtual_pos_list_left ctx)" using e4 x(5) by simp
    have br: "right_idx s2 \<le> length (virtual_pos_list_right ctx)" using e5 x(6) by simp
    note IH = "1.IH" [OF True "1.prems"(1,2), folded s1_def, folded s2_def, OF bl br e1 e2 e3]
    have loop: "merge_loop ctx s = merge_loop ctx s2"
    proof -
      have "merge_loop ctx s =
          (if ?go then merge_loop ctx (emit_completed_chunk ctx (merge_step ctx s)) else s)"
        by (rule merge_loop.simps)
      also have "\<dots> = merge_loop ctx (emit_completed_chunk ctx (merge_step ctx s))"
        by (rule if_P [OF True])
      finally show ?thesis unfolding s1_def s2_def .
    qed
    have rows: "push_rows (out_chunk_size ctx) (cs, p)
         (set_union_merge (drop (left_idx s) (left_rows ctx)) (drop (right_idx s) (right_rows ctx)))
       = push_rows (out_chunk_size ctx) (cs', p')
         (set_union_merge (drop (left_idx s2) (left_rows ctx)) (drop (right_idx s2) (right_rows ctx)))"
      unfolding x(1) push_rows_Cons st' e4 e5 ..
    show ?thesis
      unfolding loop rows using IH .
  qed
qed

lemma fold_segments_nonempty:
  assumes "snd st \<noteq> []"
  shows "snd (fold (segment_step first_chunk) xs st) \<noteq> []"
  using assms by (induction xs arbitrary: st) (auto simp: segment_step_def Let_def)

lemma add_column_segments_nonempty:
  assumes "bs \<noteq> [] \<or> 0 < column_count t"
  shows "add_column_segments t bs \<noteq> []"
proof (cases "bs = []")
  case False
  then show ?thesis
    unfolding add_column_segments_def by (intro fold_segments_nonempty) simp
next
  case True
  with assms have "0 < column_count t" by simp
  then have u: "[0..<column_count t] = 0 # [1..<column_count t]"
    by (simp add: upt_conv_Cons)
  have "snd (segment_step (chunks t ! 0) 0 (None, bs)) \<noteq> []"
    by (simp add: segment_step_def Let_def)
  then show ?thesis
    unfolding add_column_segments_def u by (simp add: fold_segments_nonempty)
qed

lemma analyze_input_Segments:
  assumes "analyze_input l r = Inr (Segments begins tables ids)"
  shows "begins \<noteq> [] \<and> 0 < row_count l \<and> 0 < row_count r \<and> 0 < column_count l"
proof -
  from assms have cc: "0 < column_count l" and rl: "0 < row_count l" and rr: "0 < row_count r"
    and b: "begins = remdups_adj (sort (add_column_segments r (add_column_segments l [])))"
    by (auto simp: analyze_input_def Let_def split: if_splits option.splits)
  have "add_column_segments l [] \<noteq> []"
    using cc by (intro add_column_segments_nonempty) simp
  then have "add_column_segments r (add_column_segments l []) \<noteq> []"
    by (intro add_column_segments_nonempty) simp
  then have "set (add_column_segments r (add_column_segments l [])) \<noteq> {}"
    by simp
  then have "set begins \<noteq> {}"
    unfolding b by simp
  then have "begins \<noteq> []" by auto
  with cc rl rr show ?thesis by simp
qed

lemma length_build_reference_matrix:
  "length (build_reference_matrix begins t) = length begins"
  by (simp add: build_reference_matrix_def)

lemma build_reference_matrix_column_length:
  assumes "well_formed begins t" "k < length begins"
  shows "length (build_reference_matrix begins t ! k) = row_count t"
proof -
  have "\<forall>chunk\<in>set (chunks t). length (column_pos_list chunk (begins ! k)) = chunk_rows chunk"
    using assms by (auto simp: well_formed_def list_all_iff)
  then have "map (\<lambda>chunk. length (column_pos_list chunk (begins ! k))) (chunks t)
           = map chunk_rows (chunks t)"
    by simp
  moreover have "length (concat (map (\<lambda>chunk. column_pos_list chunk (begins ! k)) (chunks t)))
      = sum_list (map (\<lambda>chunk. length (column_pos_list chunk (begins ! k))) (chunks t))"
    by (simp add: length_concat comp_def)
  ultimately have "length (concat (map (\<lambda>chunk. column_pos_list chunk (begins ! k)) (chunks t)))
      = row_count t"
    by (simp only: row_count_def)
  then show ?thesis
    using assms(2) by (simp add: build_reference_matrix_def)
qed

lemma matrix_rows_build_reference_matrix:
  assumes "well_formed begins t" "begins \<noteq> []"
  shows "matrix_rows (build_reference_matrix begins t)
       = map (matrix_row (build_reference_matrix begins t)) [0..<row_count t]"
proof -
  have "build_reference_matrix begins t \<noteq> []"
    using assms(2) by (simp add: build_reference_matrix_def)
  then have "hd (build_reference_matrix begins t) = build_reference_matrix begins t ! 0"
    by (simp add: hd_conv_nth)
  moreover have "length (build_reference_matrix begins t ! 0) = row_count t"
    using assms by (intro build_reference_matrix_column_length) simp_all
  ultimately show ?thesis by (simp add: matrix_rows_def)
qed

lemma sorted_rows_of_virtual_pos_list:
  fixes m :: "'r::linorder list list"
  shows "map (matrix_row m) (virtual_pos_list m n) = sort (map (matrix_row m) [0..<n])"
proof -
  have c: "VirtualPosListCmp m = (\<lambda>a b. matrix_row m a < matrix_row m b)"
    by (intro ext) (rule VirtualPosListCmp_iff)
  have s: "sorted (map (matrix_row m) (virtual_pos_list m n))"
    unfolding virtual_pos_list_def c by (rule sorted_std_sort)
  have "mset (virtual_pos_list m n) = mset [0..<n]"
    unfolding virtual_pos_list_def by (rule mset_std_sort)
  then have "mset (map (matrix_row m) (virtual_pos_list m n)) = mset (map (matrix_row m) [0..<n])"
    by (simp only: mset_map)
  with s show ?thesis by (simp only: properties_for_sort)
qed

lemma length_virtual_pos_list: "length (virtual_pos_list m n) = n"
proof -
  have "mset (virtual_pos_list m n) = mset [0..<n]"
    unfolding virtual_pos_list_def by (rule mset_std_sort)
  then have "size (mset (virtual_pos_list m n)) = size (mset [0..<n])" by simp
  then show ?thesis by simp
qed

lemma matrix_rows_rows_to_pos_lists:
  assumes "0 < S" "\<forall>row\<in>set rows. length row = S"
  shows "matrix_rows (rows_to_pos_lists S rows) = rows"
proof -
  have hd: "hd (rows_to_pos_lists S rows) = map (\<lambda>row. row ! 0) rows"
    using assms(1) by (simp add: rows_to_pos_lists_def hd_map upt_conv_Cons)
  show ?thesis
  proof (rule nth_equalityI)
    show "length (matrix_rows (rows_to_pos_lists S rows)) = length rows"
      by (simp add: matrix_rows_def hd)
  next
    fix i assume "i < length (matrix_rows (rows_to_pos_lists S rows))"
    then have i: "i < length rows" by (simp add: matrix_rows_def hd)
    then have l: "length (rows ! i) = S" using assms(2) by simp
    have "matrix_row (rows_to_pos_lists S rows) i = map (\<lambda>k. rows ! i ! k) [0..<S]"
      using i by (simp add: matrix_row_def rows_to_pos_lists_def comp_def)
    also have "\<dots> = rows ! i"
      using l by (metis map_nth)
    finally show "matrix_rows (rows_to_pos_lists S rows) ! i = rows ! i"
      using i by (simp add: matrix_rows_def hd)
  qed
qed

lemma concat_nth_segment:
  "j < length y \<Longrightarrow> concat (xs @ y # zs) ! (length (concat xs) + j) = y ! j"
  by (simp add: nth_append)

lemma segment_prefix_length:
  assumes "sorted_wrt (<) begins" "begins ! 0 = 0"
  shows "k < length begins \<Longrightarrow>
     length (concat (map (\<lambda>i. map (f i)
               [begins ! i ..< (if i \<ge> length begins - 1 then n else begins ! (i + 1))]) [0..<k]))
       = begins ! k"
proof (induction k)
  case 0
  then show ?case using assms(2) by simp
next
  case (Suc k)
  then have k: "k < length begins" and k1: "\<not> k \<ge> length begins - 1" by simp_all
  have "begins ! k < begins ! Suc k"
    using assms(1) Suc.prems by (simp add: sorted_wrt_nth_less)
  then show ?case
    using Suc.IH [OF k] k1 by simp
qed

lemma emit_chunk_column_at_segment_begin:
  assumes st: "sorted_wrt (<) (segment_begins ctx)" and z: "segment_begins ctx ! 0 = 0"
    and bd: "\<forall>b\<in>set (segment_begins ctx). b < num_columns ctx"
    and len: "length res = length (segment_begins ctx)"
    and k: "k < length (segment_begins ctx)"
  shows "segment_begins ctx ! k < length (columns (emit_chunk ctx res))
       \<and> columns (emit_chunk ctx res) ! (segment_begins ctx ! k)
         = \<lparr> referenced_table = segment_tables ctx ! k,
             referenced_column_id = column_ids ctx ! (segment_begins ctx ! k),
             pos_list = k \<rparr>"
proof -
  define begins where "begins = segment_begins ctx"
  define n where "n = num_columns ctx"
  define mkcol where "mkcol = (\<lambda>i column_id.
      \<lparr> referenced_table = segment_tables ctx ! i,
        referenced_column_id = column_ids ctx ! column_id,
        pos_list = i \<rparr>)"
  define F where "F = (\<lambda>i. map (mkcol i)
      [begins ! i ..< (if i \<ge> length begins - 1 then n else begins ! (i + 1))])"
  have cols: "columns (emit_chunk ctx res) = concat (map F [0..<length begins])"
    unfolding emit_chunk_def Let_def F_def mkcol_def begins_def n_def len by simp
  have kk: "k < length begins" using k by (simp add: begins_def)
  have split: "[0..<length begins] = [0..<k] @ k # [Suc k..<length begins]"
    using kk by (metis le_add2 le_add_same_cancel2 less_imp_add_positive upt_add_eq_append upt_conv_Cons)
  have pre: "length (concat (map F [0..<k])) = begins ! k"
    unfolding F_def using st z kk
    by (intro segment_prefix_length) (simp_all add: begins_def)
  have nonempty: "0 < length (F k)"
  proof (cases "k \<ge> length begins - 1")
    case True
    have "begins ! k < n" using bd kk by (simp add: begins_def n_def)
    with True show ?thesis by (simp add: F_def)
  next
    case False
    then have "Suc k < length begins" by simp
    then have "begins ! k < begins ! Suc k"
      using st by (simp add: sorted_wrt_nth_less begins_def)
    with False show ?thesis by (simp add: F_def)
  qed
  have "concat (map F [0..<k] @ F k # map F [Suc k..<length begins])
          ! (length (concat (map F [0..<k])) + 0) = F k ! 0"
    using nonempty by (rule concat_nth_segment)
  then have "columns (emit_chunk ctx res) ! (begins ! k) = F k ! 0"
    unfolding cols split by (simp add: pre)
  also have "\<dots> = mkcol k (begins ! k)"
    using nonempty by (simp add: F_def split: if_splits)
  finally have nth: "columns (emit_chunk ctx res) ! (begins ! k) = mkcol k (begins ! k)" .
  have "length (columns (emit_chunk ctx res))
      = length (concat (map F [0..<k])) + length (F k)
        + length (concat (map F [Suc k..<length begins]))"
    unfolding cols split by simp
  then have "begins ! k < length (columns (emit_chunk ctx res))"
    using nonempty pre by simp
  with nth show ?thesis
    by (simp add: mkcol_def begins_def)
qed

lemma emit_chunk_column_pos_list:
  assumes "sorted_wrt (<) (segment_begins ctx)" "segment_begins ctx ! 0 = 0"
    and "\<forall>b\<in>set (segment_begins ctx). b < num_columns ctx"
    and "length res = length (segment_begins ctx)"
    and "k < length (segment_begins ctx)"
  shows "column_pos_list (emit_chunk ctx res) (segment_begins ctx ! k) = res ! k"
  using emit_chunk_column_at_segment_begin [OF assms]
  by (simp add: column_pos_list_def emit_chunk_def)


lemma on_execute_chunks:
  fixes l r :: "'r::linorder Table"
  assumes an: "analyze_input l r = Inr (Segments begins tables ids)"
    and wl: "well_formed begins l" and wr: "well_formed begins r"
  shows "\<exists>ctx. segment_begins ctx = begins \<and> num_columns ctx = column_count l
       \<and> on_execute l r = Inr
           \<lparr> column_names = column_names l, column_types = column_types l,
             chunk_size = max (chunk_size l) (chunk_size r),
             chunks = map (\<lambda>rows. emit_chunk ctx (rows_to_pos_lists (length begins) rows))
                        (chunk_lists (max (chunk_size l) (chunk_size r))
                           (set_union_merge (sort (matrix_rows (build_reference_matrix begins l)))
                                            (sort (matrix_rows (build_reference_matrix begins r))))),
             table_type = References \<rparr>
       \<and> (\<forall>row\<in>set (set_union_merge (sort (matrix_rows (build_reference_matrix begins l)))
                                        (sort (matrix_rows (build_reference_matrix begins r)))).
             length row = length begins)
       \<and> matrix_rows (build_reference_matrix begins l) \<noteq> []
       \<and> matrix_rows (build_reference_matrix begins r) \<noteq> []"
proof -
  define ml where "ml = build_reference_matrix begins l"
  define mr where "mr = build_reference_matrix begins r"
  define m where "m = max (chunk_size l) (chunk_size r)"
  define S where "S = length begins"
  define ctx where "ctx =
    \<lparr> reference_matrix_left = ml, reference_matrix_right = mr,
      virtual_pos_list_left = virtual_pos_list ml (row_count l),
      virtual_pos_list_right = virtual_pos_list mr (row_count r),
      out_chunk_size = m, segment_begins = begins, segment_tables = tables,
      column_ids = ids, num_columns = column_count l \<rparr>"
  define s0 :: "'r merge_state" where "s0 =
    \<lparr> left_idx = 0, right_idx = 0, chunk_row_idx = 0,
      result_pos_lists = replicate (length ml) [], out_chunks = [] \<rparr>"
  define merged where "merged = set_union_merge (sort (matrix_rows ml)) (sort (matrix_rows mr))"
  define mk where "mk = (\<lambda>rows. emit_chunk ctx (rows_to_pos_lists S rows))"
  note a = analyze_input_Segments [OF an]
  have S0: "0 < S" using a by (simp add: S_def)
  have lS: "length ml = S" "length mr = S"
    by (simp_all add: ml_def mr_def S_def length_build_reference_matrix)
  have rowsL: "matrix_rows ml = map (matrix_row ml) [0..<row_count l]"
    unfolding ml_def using wl a by (intro matrix_rows_build_reference_matrix) simp_all
  have rowsR: "matrix_rows mr = map (matrix_row mr) [0..<row_count r]"
    unfolding mr_def using wr a by (intro matrix_rows_build_reference_matrix) simp_all
  have neL: "matrix_rows ml \<noteq> []" using rowsL a by simp
  have neR: "matrix_rows mr \<noteq> []" using rowsR a by simp
  have L: "left_rows ctx = sort (matrix_rows ml)"
    by (simp add: left_rows_def ctx_def sorted_rows_of_virtual_pos_list rowsL)
  have R: "right_rows ctx = sort (matrix_rows mr)"
    by (simp add: right_rows_def ctx_def sorted_rows_of_virtual_pos_list rowsR)
  have sim: "result_pos_lists (merge_loop ctx s0)
           = rows_to_pos_lists S (snd (push_rows (out_chunk_size ctx) ([], [])
               (set_union_merge (drop (left_idx s0) (left_rows ctx)) (drop (right_idx s0) (right_rows ctx)))))
       \<and> chunk_row_idx (merge_loop ctx s0)
           = length (snd (push_rows (out_chunk_size ctx) ([], [])
               (set_union_merge (drop (left_idx s0) (left_rows ctx)) (drop (right_idx s0) (right_rows ctx)))))
       \<and> out_chunks (merge_loop ctx s0)
           = map (\<lambda>rows. emit_chunk ctx (rows_to_pos_lists S rows))
               (fst (push_rows (out_chunk_size ctx) ([], [])
               (set_union_merge (drop (left_idx s0) (left_rows ctx)) (drop (right_idx s0) (right_rows ctx)))))"
  proof (rule merge_loop_sim)
    show "length (reference_matrix_left ctx) = S" using lS by (simp add: ctx_def)
    show "length (reference_matrix_right ctx) = S" using lS by (simp add: ctx_def)
    show "left_idx s0 \<le> length (virtual_pos_list_left ctx)" by (simp add: s0_def)
    show "right_idx s0 \<le> length (virtual_pos_list_right ctx)" by (simp add: s0_def)
    show "result_pos_lists s0 = rows_to_pos_lists S []"
      using lS by (simp add: s0_def rows_to_pos_lists_Nil)
    show "chunk_row_idx s0 = length []" by (simp add: s0_def)
    show "out_chunks s0 = map (\<lambda>rows. emit_chunk ctx (rows_to_pos_lists S rows)) []"
      by (simp add: s0_def)
  qed
  have pr: "push_rows m ([], []) merged = (fst (chunkify m merged), snd (chunkify m merged))"
    using push_rows_chunkify [of m "[]" "[]" merged] by auto
  have sm: "set_union_merge (drop (left_idx s0) (left_rows ctx)) (drop (right_idx s0) (right_rows ctx))
            = merged"
    by (simp add: s0_def L R merged_def)
  have ocs: "out_chunk_size ctx = m" by (simp add: ctx_def)
  from sim have
    f1: "result_pos_lists (merge_loop ctx s0) = rows_to_pos_lists S (snd (chunkify m merged))" and
    f2: "chunk_row_idx (merge_loop ctx s0) = length (snd (chunkify m merged))" and
    f3: "out_chunks (merge_loop ctx s0) = map mk (fst (chunkify m merged))"
    unfolding sm ocs pr mk_def by simp_all
  define final where "final =
     (if chunk_row_idx (merge_loop ctx s0) \<noteq> 0
      then out_chunks (merge_loop ctx s0) @ [emit_chunk ctx (result_pos_lists (merge_loop ctx s0))]
      else out_chunks (merge_loop ctx s0))"
  have fin: "final = map mk (chunk_lists m merged)"
    unfolding final_def f1 f2 f3 by (simp add: chunk_lists_def mk_def)
  define out where "out =
     \<lparr> column_names = column_names l, column_types = column_types l,
       chunk_size = m, chunks = final, table_type = References \<rparr>"
  have ex: "on_execute l r = Inr out"
    unfolding on_execute_def an
    by (simp add: Let_def out_def final_def ctx_def s0_def ml_def mr_def m_def)
  have lens: "\<forall>row\<in>set merged. length row = S"
  proof
    fix row assume "row \<in> set merged"
    then have "row \<in> set (matrix_rows ml) \<or> row \<in> set (matrix_rows mr)"
      by (simp add: merged_def set_set_union_merge)
    then show "length row = S"
      using lS by (auto simp: rowsL rowsR length_matrix_row)
  qed
  have "on_execute l r = Inr
           \<lparr> column_names = column_names l, column_types = column_types l,
             chunk_size = m, chunks = map mk (chunk_lists m merged), table_type = References \<rparr>"
    using ex by (simp add: out_def fin)
  moreover have "segment_begins ctx = begins" "num_columns ctx = column_count l"
    by (simp_all add: ctx_def)
  ultimately show ?thesis
    using lens neL neR unfolding merged_def ml_def mr_def m_def mk_def S_def by blast
qed

lemma on_execute_result:
  fixes l r :: "'r::linorder Table"
  assumes an: "analyze_input l r = Inr (Segments begins tables ids)"
    and wl: "well_formed begins l" and wr: "well_formed begins r"
  shows "\<exists>out. on_execute l r = Inr out
       \<and> chunk_size out = max (chunk_size l) (chunk_size r)
       \<and> map (\<lambda>chunk. matrix_rows (pos_lists chunk)) (chunks out)
           = chunk_lists (max (chunk_size l) (chunk_size r))
               (set_union_merge (sort (matrix_rows (build_reference_matrix begins l)))
                                (sort (matrix_rows (build_reference_matrix begins r))))
       \<and> matrix_rows (build_reference_matrix begins l) \<noteq> []
       \<and> matrix_rows (build_reference_matrix begins r) \<noteq> []"
proof -
  define m where "m = max (chunk_size l) (chunk_size r)"
  define S where "S = length begins"
  define merged where "merged = set_union_merge (sort (matrix_rows (build_reference_matrix begins l)))
                                          (sort (matrix_rows (build_reference_matrix begins r)))"
  from on_execute_chunks [OF an wl wr] obtain ctx where
    ex: "on_execute l r = Inr
           \<lparr> column_names = column_names l, column_types = column_types l,
             chunk_size = m,
             chunks = map (\<lambda>rows. emit_chunk ctx (rows_to_pos_lists S rows)) (chunk_lists m merged),
             table_type = References \<rparr>" and
    lens: "\<forall>row\<in>set merged. length row = S" and
    neL: "matrix_rows (build_reference_matrix begins l) \<noteq> []" and
    neR: "matrix_rows (build_reference_matrix begins r) \<noteq> []"
    unfolding m_def S_def merged_def by blast
  have S0: "0 < S" using analyze_input_Segments [OF an] by (simp add: S_def)
  define mk where "mk = (\<lambda>rows. emit_chunk ctx (rows_to_pos_lists S rows))"
  have "\<And>rows. rows \<in> set (chunk_lists m merged) \<Longrightarrow> matrix_rows (pos_lists (mk rows)) = rows"
  proof -
    fix rows assume "rows \<in> set (chunk_lists m merged)"
    then have "set rows \<subseteq> set (concat (chunk_lists m merged))" by auto
    then have "set rows \<subseteq> set merged" by (simp add: concat_chunk_lists)
    with lens have "\<forall>row\<in>set rows. length row = S" by blast
    then have "matrix_rows (rows_to_pos_lists S rows) = rows"
      by (rule matrix_rows_rows_to_pos_lists [OF S0])
    then show "matrix_rows (pos_lists (mk rows)) = rows"
      by (simp add: mk_def emit_chunk_def)
  qed
  then have "map (\<lambda>rows. matrix_rows (pos_lists (mk rows))) (chunk_lists m merged)
           = chunk_lists m merged"
    by (simp add: map_idI)
  then have "map (\<lambda>chunk. matrix_rows (pos_lists chunk)) (map mk (chunk_lists m merged))
           = chunk_lists m merged"
    by (simp add: comp_def)
  then show ?thesis
    using ex neL neR unfolding mk_def m_def S_def merged_def by simp
qed

lemma fold_segments_set:
  "set (snd st) \<subseteq> set (snd (fold (segment_step first_chunk) xs st))
   \<and> set (snd (fold (segment_step first_chunk) xs st)) \<subseteq> set (snd st) \<union> set xs"
proof (induction xs arbitrary: st)
  case Nil
  then show ?case by simp
next
  case (Cons x xs)
  have s: "set (snd st) \<subseteq> set (snd (segment_step first_chunk x st))
         \<and> set (snd (segment_step first_chunk x st)) \<subseteq> set (snd st) \<union> {x}"
    by (auto simp: segment_step_def Let_def)
  from Cons.IH [of "segment_step first_chunk x st"] s show ?case by auto
qed

lemma add_column_segments_set:
  "set bs \<subseteq> set (add_column_segments t bs)
   \<and> set (add_column_segments t bs) \<subseteq> set bs \<union> {0..<column_count t}"
  using fold_segments_set [of "(None, bs)" "chunks t ! 0" "[0..<column_count t]"]
  by (simp add: add_column_segments_def)

lemma add_column_segments_zero:
  assumes "0 < column_count t"
  shows "0 \<in> set (add_column_segments t [])"
proof -
  have u: "[0..<column_count t] = 0 # [1..<column_count t]"
    using assms by (simp add: upt_conv_Cons)
  have "0 \<in> set (snd (segment_step (chunks t ! 0) 0 (None, [])))"
    by (simp add: segment_step_def Let_def)
  then show ?thesis
    unfolding add_column_segments_def u
    using fold_segments_set [of "segment_step (chunks t ! 0) 0 (None, [])" "chunks t ! 0"
        "[1..<column_count t]"]
    by auto
qed

lemma analyze_input_begins:
  assumes "analyze_input l r = Inr (Segments begins tables ids)"
  shows "sorted_wrt (<) begins \<and> begins ! 0 = 0 \<and> (\<forall>b\<in>set begins. b < column_count l)"
proof -
  from assms have cc: "0 < column_count l" and eq: "column_count l = column_count r"
    and b: "begins = remdups_adj (sort (add_column_segments r (add_column_segments l [])))"
    by (auto simp: analyze_input_def Let_def split: if_splits option.splits)
  have sb: "set begins = set (add_column_segments r (add_column_segments l []))"
    unfolding b by simp
  have "sorted begins" unfolding b by (simp add: sorted_remdups_adj)
  moreover have "distinct begins" unfolding b by (simp add: distinct_remdups_adj_sorted)
  ultimately have strict: "sorted_wrt (<) begins" and so: "sorted begins"
    by (simp_all add: strict_sorted_iff)
  have z: "0 \<in> set begins"
    using add_column_segments_zero [OF cc] add_column_segments_set [of "add_column_segments l []" r]
    unfolding sb by blast
  then have ne: "begins \<noteq> []" by auto
  from z obtain i where i: "i < length begins" "begins ! i = 0"
    by (auto simp: in_set_conv_nth)
  have "begins ! 0 \<le> begins ! i"
    using so i(1) by (intro sorted_nth_mono) simp_all
  then have z0: "begins ! 0 = 0" using i(2) by simp
  have bd: "\<forall>b\<in>set begins. b < column_count l"
  proof
    fix x assume "x \<in> set begins"
    then have "x \<in> set (add_column_segments l []) \<union> {0..<column_count r}"
      using add_column_segments_set [of "add_column_segments l []" r] unfolding sb by blast
    moreover have "set (add_column_segments l []) \<subseteq> {0..<column_count l}"
      using add_column_segments_set [of "[]" l] by simp
    ultimately show "x < column_count l" using eq by auto
  qed
  from strict z0 bd show ?thesis by simp
qed

lemma rows_to_pos_lists_nth:
  "k < S \<Longrightarrow> rows_to_pos_lists S rows ! k = map (\<lambda>row. row ! k) rows"
  by (simp add: rows_to_pos_lists_def)

lemma build_reference_matrix_of_emitted_chunks:
  assumes st: "sorted_wrt (<) (segment_begins ctx)" and z: "segment_begins ctx ! 0 = 0"
    and bd: "\<forall>b\<in>set (segment_begins ctx). b < num_columns ctx"
    and t: "chunks t = map (\<lambda>rows. emit_chunk ctx (rows_to_pos_lists (length (segment_begins ctx)) rows)) cl"
  shows "build_reference_matrix (segment_begins ctx) t
       = rows_to_pos_lists (length (segment_begins ctx)) (concat cl)"
proof -
  define S where "S = length (segment_begins ctx)"
  have col: "\<And>k rows. k < S \<Longrightarrow>
      column_pos_list (emit_chunk ctx (rows_to_pos_lists S rows)) (segment_begins ctx ! k)
        = map (\<lambda>row. row ! k) rows"
  proof -
    fix k rows assume k: "k < S"
    have "column_pos_list (emit_chunk ctx (rows_to_pos_lists S rows)) (segment_begins ctx ! k)
        = rows_to_pos_lists S rows ! k"
      using st z bd k
      by (intro emit_chunk_column_pos_list) (simp_all add: S_def length_rows_to_pos_lists)
    then show "column_pos_list (emit_chunk ctx (rows_to_pos_lists S rows)) (segment_begins ctx ! k)
        = map (\<lambda>row. row ! k) rows"
      using k by (simp add: rows_to_pos_lists_nth)
  qed
  have "\<And>k. k < S \<Longrightarrow>
      concat (map (\<lambda>chunk. column_pos_list chunk (segment_begins ctx ! k)) (chunks t))
        = map (\<lambda>row. row ! k) (concat cl)"
  proof -
    fix k assume k: "k < S"
    have "map (\<lambda>chunk. column_pos_list chunk (segment_begins ctx ! k)) (chunks t)
        = map (\<lambda>rows. map (\<lambda>row. row ! k) rows) cl"
      unfolding t S_def [symmetric] using col [OF k] by (simp add: comp_def)
    then show "concat (map (\<lambda>chunk. column_pos_list chunk (segment_begins ctx ! k)) (chunks t))
        = map (\<lambda>row. row ! k) (concat cl)"
      by (simp add: map_concat)
  qed
  then show ?thesis
    unfolding build_reference_matrix_def rows_to_pos_lists_def S_def [symmetric]
    by simp
qed

lemma analyze_single_column_tables:
  assumes "xs \<noteq> []" "ys \<noteq> []"
  shows "analyze_input (single_column_table a xs) (single_column_table b ys) = Inr (Segments [0] [0] [0])"
  using assms
  by (simp add: analyze_input_def single_column_table_def column_count_def row_count_def
        chunk_rows_def column_pos_list_def add_column_segments_def segment_step_def Let_def)

lemma well_formed_single_column_table: "well_formed [0] (single_column_table a xs)"
  by (simp add: well_formed_def single_column_table_def chunk_rows_def column_pos_list_def)

lemma matrix_rows_single_column_table:
  "matrix_rows (build_reference_matrix [0] (single_column_table a xs)) = map (\<lambda>x. [x]) xs"
proof -
  have "matrix_rows [xs] = map (\<lambda>x. [x]) xs"
    by (rule nth_equalityI) (simp_all add: matrix_rows_def matrix_row_def)
  then show ?thesis
    by (simp add: build_reference_matrix_def single_column_table_def column_pos_list_def)
qed

section \<open>Claims about the SetUnion operator\<close>

text \<open>
  Two single-column reference tables, the left one holding the row id \<open>(0, 0)\<close> twice:
  the output holds it twice as well, so the output is not the deduplicated union of the
  inputs' rows.
\<close>

theorem set_union_keeps_duplicates_of_one_input:
  "analyze_input (single_column_table 10 [(0, 0), (0, 0)]) (single_column_table 10 [(0, 5)])
     = Inr (Segments [0] [0] [0])
   \<and> map_sum id table_rows
       (on_execute (single_column_table 10 [(0, 0), (0, 0)]) (single_column_table 10 [(0, 5)]))
     = Inr [[(0, 0)], [(0, 0)], [(0, 5)]]"
proof -
  have "map_sum id table_rows
       (on_execute (single_column_table 10 [(0, 0), (0, 0)]) (single_column_table 10 [(0, 5)]))
     = Inr [[(0, 0)], [(0, 0)], [(0, 5)]]"
    by code_simp
  then show ?thesis by (simp add: analyze_single_column_tables)
qed

text \<open>
  Claim C1, as the code has it. Let two inputs pass the input analysis with segment
  begins \<open>begins\<close> (non-empty reference tables of one layout), and let every segment's
  position list have the row count of its chunk. The operator returns a table whose
  row-id tuples, read chunk by chunk, are the \<^verbatim>\<open>std::set_union\<close> merge of the two inputs'
  tuples, each input sorted lexicographically: the smaller head is emitted and its side
  advanced, equal heads are emitted once and both sides advanced. The output is sorted,
  and every tuple occurs in it as often as in the input that holds it more often. When
  neither input holds a tuple twice, the output holds no tuple twice and its tuples are
  the union of the inputs' tuples. The columns of the output chunks point to these
  position lists: reading the output through the first column of each segment, the way
  the inputs are read, gives the same tuples.
\<close>

theorem set_union_output_rows:
  fixes l r :: "'r::linorder Table"
  assumes an: "analyze_input l r = Inr (Segments begins tables ids)"
    and wl: "well_formed begins l" and wr: "well_formed begins r"
  shows "\<exists>out. on_execute l r = Inr out
       \<and> table_rows out = set_union_merge (sort (matrix_rows (build_reference_matrix begins l)))
                                          (sort (matrix_rows (build_reference_matrix begins r)))
       \<and> sorted (table_rows out)
       \<and> mset (table_rows out) = mset (matrix_rows (build_reference_matrix begins l))
                                \<union># mset (matrix_rows (build_reference_matrix begins r))
       \<and> (distinct (matrix_rows (build_reference_matrix begins l))
            \<and> distinct (matrix_rows (build_reference_matrix begins r))
          \<longrightarrow> distinct (table_rows out)
              \<and> set (table_rows out) = set (matrix_rows (build_reference_matrix begins l))
                                      \<union> set (matrix_rows (build_reference_matrix begins r)))
       \<and> matrix_rows (build_reference_matrix begins out) = table_rows out"
proof -
  define L where "L = matrix_rows (build_reference_matrix begins l)"
  define R where "R = matrix_rows (build_reference_matrix begins r)"
  define merged where "merged = set_union_merge (sort L) (sort R)"
  define m where "m = max (chunk_size l) (chunk_size r)"
  from on_execute_result [OF an wl wr] obtain out where
    ex: "on_execute l r = Inr out" and
    ch: "map (\<lambda>chunk. matrix_rows (pos_lists chunk)) (chunks out) = chunk_lists m merged"
    unfolding merged_def L_def R_def m_def by blast
  from on_execute_chunks [OF an wl wr] obtain ctx where
    sb: "segment_begins ctx = begins" and nc: "num_columns ctx = column_count l" and
    ex': "on_execute l r = Inr
           \<lparr> column_names = column_names l, column_types = column_types l,
             chunk_size = m,
             chunks = map (\<lambda>rows. emit_chunk ctx (rows_to_pos_lists (length begins) rows))
                        (chunk_lists m merged),
             table_type = References \<rparr>" and
    lens: "\<forall>row\<in>set merged. length row = length begins"
    unfolding merged_def L_def R_def m_def by blast
  from ex ex' have "out =
           \<lparr> column_names = column_names l, column_types = column_types l,
             chunk_size = m,
             chunks = map (\<lambda>rows. emit_chunk ctx (rows_to_pos_lists (length begins) rows))
                        (chunk_lists m merged),
             table_type = References \<rparr>"
    by simp
  then have "chunks out
      = map (\<lambda>rows. emit_chunk ctx (rows_to_pos_lists (length begins) rows)) (chunk_lists m merged)"
    by simp
  then have co: "chunks out
      = map (\<lambda>rows. emit_chunk ctx (rows_to_pos_lists (length (segment_begins ctx)) rows))
            (chunk_lists m merged)"
    by (simp only: sb)
  note bp = analyze_input_begins [OF an]
  have "build_reference_matrix (segment_begins ctx) out
       = rows_to_pos_lists (length (segment_begins ctx)) (concat (chunk_lists m merged))"
    using bp co by (intro build_reference_matrix_of_emitted_chunks) (simp_all add: sb nc)
  then have bm: "build_reference_matrix begins out = rows_to_pos_lists (length begins) merged"
    by (simp add: sb concat_chunk_lists)
  have S0: "0 < length begins" using analyze_input_Segments [OF an] by simp
  have cols: "matrix_rows (build_reference_matrix begins out) = merged"
    unfolding bm using S0 lens by (rule matrix_rows_rows_to_pos_lists)
  have rows: "table_rows out = merged"
    unfolding table_rows_def ch by (rule concat_chunk_lists)
  have so: "sorted merged"
    unfolding merged_def by (intro sorted_set_union_merge) simp_all
  have ms: "mset merged = mset L \<union># mset R"
    unfolding merged_def using mset_set_union_merge [of "sort L" "sort R"] by simp
  have di: "distinct L \<and> distinct R \<longrightarrow> distinct merged \<and> set merged = set L \<union> set R"
  proof (intro impI)
    assume d: "distinct L \<and> distinct R"
    have "\<And>x. count (mset merged) x \<le> 1"
    proof -
      fix x
      have "count (mset L) x \<le> 1" "count (mset R) x \<le> 1"
        using d by (simp_all add: distinct_count_atmost_1)
      then show "count (mset merged) x \<le> 1" unfolding ms by simp
    qed
    then have c1: "\<And>x. count (mset merged) x \<le> 1" .
    have "distinct merged"
      unfolding distinct_count_atmost_1
    proof (intro allI)
      fix a
      show "count (mset merged) a = (if a \<in> set merged then 1 else 0)"
      proof (cases "a \<in> set merged")
        case True
        then have "count (mset merged) a \<noteq> 0" by (simp add: count_mset_0_iff)
        with c1 [of a] have "count (mset merged) a = 1" by linarith
        with True show ?thesis by (simp only: if_True)
      next
        case False
        then show ?thesis by (simp add: count_mset_0_iff)
      qed
    qed
    moreover have "set merged = set L \<union> set R"
      unfolding merged_def by (simp add: set_set_union_merge)
    ultimately show "distinct merged \<and> set merged = set L \<union> set R" by simp
  qed
  have "on_execute l r = Inr out
       \<and> table_rows out = merged
       \<and> sorted (table_rows out)
       \<and> mset (table_rows out) = mset L \<union># mset R
       \<and> (distinct L \<and> distinct R
          \<longrightarrow> distinct (table_rows out) \<and> set (table_rows out) = set L \<union> set R)
       \<and> matrix_rows (build_reference_matrix begins out) = table_rows out"
    using ex so ms di cols unfolding rows by simp
  then show ?thesis
    unfolding merged_def L_def R_def by (rule exI [of _ out])
qed


theorem set_union_output_rows_witness:
  "analyze_input (single_column_table 10 [(0, 0), (0, 2)]) (single_column_table 10 [(0, 2), (0, 5)])
     = Inr (Segments [0] [0] [0])
   \<and> well_formed [0] (single_column_table 10 [(0, 0), (0, 2)])
   \<and> well_formed [0] (single_column_table 10 [(0, 2), (0, 5)])
   \<and> map_sum id table_rows
       (on_execute (single_column_table 10 [(0, 0), (0, 2)]) (single_column_table 10 [(0, 2), (0, 5)]))
     = Inr [[(0, 0)], [(0, 2)], [(0, 5)]]"
proof -
  let ?l = "single_column_table 10 [(0, 0), (0, 2)]"
  let ?r = "single_column_table 10 [(0, 2), (0, 5)]"
  have an: "analyze_input ?l ?r = Inr (Segments [0] [0] [0])"
    by (rule analyze_single_column_tables) simp_all
  have wl: "well_formed [0] ?l" and wr: "well_formed [0] ?r"
    by (rule well_formed_single_column_table)+
  from set_union_output_rows [OF an wl wr] obtain out where
    ex: "on_execute ?l ?r = Inr out" and
    rows: "table_rows out = set_union_merge (sort (matrix_rows (build_reference_matrix [0] ?l)))
                                            (sort (matrix_rows (build_reference_matrix [0] ?r)))"
    by blast
  have "table_rows out = [[(0, 0)], [(0, 2)], [(0, 5)]]"
    unfolding rows matrix_rows_single_column_table by simp
  with ex have "map_sum id table_rows (on_execute ?l ?r) = Inr [[(0, 0)], [(0, 2)], [(0, 5)]]"
    by simp
  with an wl wr show ?thesis by blast
qed





end
